theory Spec2Isabelle
  imports Complex_Main "HOL-Library.AList"
begin

section \<open>JSON values (json-types.ts)\<close>

text \<open>
  \<^verbatim>\<open>JSONPrimitive = string | number | boolean | null\<close>. The store never computes with a
  number: it stores it, returns it and tests its truthiness, so a number is modelled by a
  real number, as every finite double is one (zero is the falsy number; NaN and the
  infinities, which JSON cannot express, are outside the model).
  \<^verbatim>\<open>JSONObject\<close> is an association list in the enumeration order of the object's keys,
  \<^verbatim>\<open>JSONArray\<close> a list.
\<close>

datatype jsonPrimitive = JString string | JNumber real | JBoolean bool | JNull

datatype jsonValue =
    JPrim jsonPrimitive
  | JArray "jsonValue list"
  | JObject "(string \<times> jsonValue) list"

section \<open>The data model of the store\<close>

text \<open>
  \<^verbatim>\<open>Permission = "r" | "w" | "rw" | "none"\<close>; \<open>permissionString\<close> gives the literal back,
  since the access tests of the class are written as \<^verbatim>\<open>permission.includes('r')\<close>.
\<close>

datatype permission = R | W | RW | NONE

fun permissionString :: "permission \<Rightarrow> string" where
  "permissionString R = ''r''"
| "permissionString W = ''w''"
| "permissionString RW = ''rw''"
| "permissionString NONE = ''none''"

text \<open>
  \<^verbatim>\<open>StoreResult = Store | JSONPrimitive | undefined\<close>, and an entry of \<^verbatim>\<open>storeEntries\<close> is a
  \<^verbatim>\<open>StoreResult | (() => StoreResult)\<close>. A function entry is modelled by the result its call
  yields (\<open>Supplier\<close>): the supplier is taken to be pure. Both types take the
  representation of a store as a parameter, since the store is modelled twice.

  In the first model a \<^verbatim>\<open>Store\<close> is the triple of its three fields, the two \<^verbatim>\<open>Map\<close>s being
  association lists in insertion order, and a child store is held by value: a store is a
  finite tree. This is what the code does on stores in which no store object is reachable
  twice, the exclusive ownership that the specification's data model asks for. The code
  itself holds a child store by reference, so a store can be written into itself or into
  one of its descendants; the second model, further down, keeps the store objects in a heap
  and is used where that matters.
\<close>

datatype 's storeResult0 = ResStore 's | ResPrim jsonPrimitive | ResUndefined

datatype 's storeEntry0 = Plain "'s storeResult0" | Supplier "'s storeResult0"

datatype store = Store
  (defaultPolicy: permission)
  (permissionMap: "(string \<times> permission) list")
  (storeEntries: "(string \<times> store storeEntry0) list")

type_synonym storeResult = "store storeResult0"
type_synonym storeEntry = "store storeEntry0"

text \<open>
  \<^verbatim>\<open>StoreValue = JSONObject | JSONArray | StoreResult | (() => StoreResult)\<close>, the argument
  of \<^verbatim>\<open>write\<close>: a JSON value (primitive or composite), a store, \<^verbatim>\<open>undefined\<close> or a function.
\<close>

datatype storeValue = Json jsonValue | StoreRef store | Undefined | Function storeResult

text \<open>
  Every failure of the class is \<^verbatim>\<open>throw new Error(message)\<close>; the four messages are the four
  constructors. \<open>NullPathForbidden\<close> ('Null path forbidden') and \<open>IncorrectPath\<close> ("The path
  given is incorrect") are the invalid-path failures, \<open>ReadAccessDenied\<close> and
  \<open>WriteAccessDenied\<close> (with the property named in the message) the access-denied failures.
\<close>

datatype error =
    NullPathForbidden
  | IncorrectPath
  | ReadAccessDenied string
  | WriteAccessDenied string

section \<open>Paths\<close>

text \<open>
  \<^verbatim>\<open>path.split(':')\<close> and \<^verbatim>\<open>parts.join(':')\<close> of JavaScript. Splitting the empty string gives
  one empty segment; nothing is trimmed or collapsed.
\<close>

fun splitColon :: "string \<Rightarrow> string list" where
  "splitColon [] = [[]]"
| "splitColon (c # cs) =
     (if c = CHR '':'' then [] # splitColon cs
      else (c # hd (splitColon cs)) # tl (splitColon cs))"

fun joinColon :: "string list \<Rightarrow> string" where
  "joinColon [] = []"
| "joinColon [p] = p"
| "joinColon (p # q # ps) = p @ CHR '':'' # joinColon (q # ps)"

lemma splitColon_nonempty: "splitColon p \<noteq> []"
  by (induction p) auto

lemma joinColon_splitColon: "joinColon (splitColon p) = p"
proof (induction p)
  case Nil
  show ?case by simp
next
  case (Cons c cs)
  obtain x xs where "splitColon cs = x # xs"
    using splitColon_nonempty[of cs] by (cases "splitColon cs") auto
  with Cons show ?case by (cases xs) auto
qed

lemma length_joinColon_Cons:
  "length (joinColon (x # xs)) =
     length x + (if xs = [] then 0 else Suc (length (joinColon xs)))"
  by (cases xs) auto

lemma length_rest_less:
  assumes "1 < length (splitColon p)"
  shows "length (joinColon (tl (splitColon p))) < length p"
proof -
  obtain x xs where sp: "splitColon p = x # xs"
    using splitColon_nonempty[of p] by (cases "splitColon p") auto
  with assms have ne: "xs \<noteq> []" by auto
  have "length p = length (joinColon (x # xs))"
    using joinColon_splitColon[of p] sp by simp
  also have "\<dots> = length x + Suc (length (joinColon xs))"
    using ne by (simp add: length_joinColon_Cons)
  finally show ?thesis using sp by simp
qed

section \<open>Flattening a JSON value (json-types.ts)\<close>

text \<open>
  \<^verbatim>\<open>index.toString()\<close> of an array index: the decimal digits, most significant first.
\<close>

definition digitChar :: "nat \<Rightarrow> char" where
  "digitChar d = ''0123456789'' ! d"

function toString :: "nat \<Rightarrow> string" where
  "toString n =
     (if n < 10 then [digitChar n] else toString (n div 10) @ [digitChar (n mod 10)])"
  by pat_completeness auto
termination
  by (relation "measure id") auto

declare toString.simps [simp del]

lemma size_array_member:
  fixes x :: jsonValue
  shows "x \<in> set xs \<Longrightarrow> size x < Suc (size_list size xs)"
  by (induction xs) auto

lemma size_array_item:
  fixes item :: jsonValue
  shows "(item, index) \<in> set (zip items ns) \<Longrightarrow> size item < Suc (size_list size items)"
  by (rule size_array_member) (rule set_zip_leftD)

lemma size_object_member:
  fixes member :: jsonValue
  shows "(key, member) \<in> set kvs \<Longrightarrow>
     size member < Suc (size_list (size_prod (\<lambda>_. 0) size) kvs)"
  by (induction kvs) auto

text \<open>
  \<^verbatim>\<open>getAllPathFromJsonValue(obj, currentPath)\<close>. The \<^verbatim>\<open>PathValueMap\<close> it returns is a
  \<^verbatim>\<open>Map\<close>, here an association list in insertion order; \<^verbatim>\<open>result.set(path, value)\<close> is
  \<open>AList.update\<close>, which replaces the value of a path already present and appends a new one.
\<close>

function getAllPathFromJsonValue ::
  "jsonValue \<Rightarrow> string list \<Rightarrow> (string \<times> jsonPrimitive) list" where
  "getAllPathFromJsonValue (JPrim obj) currentPath =
     AList.update (joinColon currentPath) obj []"
| "getAllPathFromJsonValue (JArray obj) currentPath =
     fold (\<lambda>(item, index) result.
             fold (\<lambda>(path, value) res. AList.update path value res)
                  (getAllPathFromJsonValue item (currentPath @ [toString index])) result)
          (zip obj [0..<length obj]) []"
| "getAllPathFromJsonValue (JObject obj) currentPath =
     fold (\<lambda>(key, member) result.
             fold (\<lambda>(path, value) res. AList.update path value res)
                  (getAllPathFromJsonValue member (currentPath @ [key])) result)
          obj []"
  by pat_completeness auto
termination
  by (relation "measure (\<lambda>(obj, currentPath). size obj)")
     (auto dest: size_array_item size_object_member)

section \<open>The permission model\<close>

definition getPermission :: "store \<Rightarrow> string \<Rightarrow> permission" where
  "getPermission s key =
     (case map_of (permissionMap s) key of None \<Rightarrow> defaultPolicy s | Some p \<Rightarrow> p)"

definition allowedToRead :: "store \<Rightarrow> string \<Rightarrow> bool" where
  "allowedToRead s key = (CHR ''r'' \<in> set (permissionString (getPermission s key)))"

definition allowedToWrite :: "store \<Rightarrow> string \<Rightarrow> bool" where
  "allowedToWrite s key = (CHR ''w'' \<in> set (permissionString (getPermission s key)))"

section \<open>The store engine\<close>

text \<open>
  \<^verbatim>\<open>this.storeEntries.get(key)\<close> is \<^verbatim>\<open>undefined\<close> for a key the map does not hold;
  \<^verbatim>\<open>this.storeEntries.set(key, e)\<close> replaces the value of a key in place or appends the key.
\<close>

definition getEntry :: "store \<Rightarrow> string \<Rightarrow> storeEntry" where
  "getEntry s key =
     (case map_of (storeEntries s) key of None \<Rightarrow> Plain ResUndefined | Some e \<Rightarrow> e)"

definition setEntry :: "string \<Rightarrow> storeEntry \<Rightarrow> store \<Rightarrow> store" where
  "setEntry key e s =
     Store (defaultPolicy s) (permissionMap s) (AList.update key e (storeEntries s))"

text \<open>
  \<^verbatim>\<open>createInstance\<close> climbs the prototype chain while the prototype's constructor is not
  \<^verbatim>\<open>Object\<close>, so it stops at \<^verbatim>\<open>Store.prototype\<close> and returns \<^verbatim>\<open>new Store()\<close> whatever the class
  of the receiver. No property of \<^verbatim>\<open>Store\<close> itself is decorated, so the constructor finds no
  permission metadata: the new store has the field initialiser's policy \<^verbatim>\<open>"rw"\<close>, no
  override and no entry.
\<close>

definition createInstance :: store where
  "createInstance = Store RW [] []"

text \<open>
  \<^verbatim>\<open>read(path)\<close>. The path is \<open>None\<close> for \<^verbatim>\<open>null\<close>. The recursion is on the rest of the path,
  joined again as the source does.
\<close>

function read :: "store \<Rightarrow> string option \<Rightarrow> error + storeResult" where
  "read s None = Inl NullPathForbidden"
| "read s (Some path) =
     (let pathParts = splitColon path in
      if length pathParts > 1 then
        (case getEntry s (hd pathParts) of
           Plain (ResStore entry) \<Rightarrow> read entry (Some (joinColon (tl pathParts)))
         | Plain _ \<Rightarrow> Inl IncorrectPath
         | Supplier functionResult \<Rightarrow>
             (case functionResult of
                ResStore st \<Rightarrow> read st (Some (joinColon (tl pathParts)))
              | _ \<Rightarrow> Inl IncorrectPath))
      else if length pathParts = 1 then
        (if \<not> allowedToRead s path then Inl (ReadAccessDenied path)
         else (case getEntry s path of
                 Supplier functionResult \<Rightarrow> Inr functionResult
               | Plain entry \<Rightarrow> Inr entry))
      else Inr ResUndefined)"
  by pat_completeness auto
termination
  by (relation "measure (\<lambda>(s, p). case p of None \<Rightarrow> 0 | Some q \<Rightarrow> length q)")
     (auto simp: length_rest_less)

text \<open>
  \<^verbatim>\<open>write(path, value)\<close>. The method changes the receiver and returns \<^verbatim>\<open>value\<close> or throws;
  the model returns the outcome together with the receiver as the call leaves it, also when
  it throws. An existing child store is changed in place by the recursive call, so the
  receiver holds the child as that call left it whether or not line 119 is reached; a store
  made by \<^verbatim>\<open>createInstance\<close> is reachable from the receiver only once it has been set.
  A store given as the value is stored as the tree it is; that the code stores the
  reference shows in the second model only.
  \<^verbatim>\<open>forEach\<close> over the flattened pairs is a fold over the new store that stops writing at
  the first throw; what the callback returns is dropped, as \<^verbatim>\<open>forEach\<close> drops it.
\<close>

function write_value ::
  "store \<Rightarrow> string option \<Rightarrow> storeValue \<Rightarrow> (error + storeValue) \<times> store" where
  "write_value s None v = (Inl NullPathForbidden, s)"
| "write_value s (Some path) v =
     (let pathParts = splitColon path in
      if length pathParts > 1 then
        (case getEntry s (hd pathParts) of
           Plain (ResStore st) \<Rightarrow>
             (case write_value st (Some (joinColon (tl pathParts))) v of
                (Inl e, st') \<Rightarrow> (Inl e, setEntry (hd pathParts) (Plain (ResStore st')) s)
              | (Inr _, st') \<Rightarrow> (Inr v, setEntry (hd pathParts) (Plain (ResStore st')) s))
         | _ \<Rightarrow>
             if allowedToWrite s (hd pathParts) then
               (case write_value createInstance (Some (joinColon (tl pathParts))) v of
                  (Inl e, _) \<Rightarrow> (Inl e, s)
                | (Inr _, st') \<Rightarrow> (Inr v, setEntry (hd pathParts) (Plain (ResStore st')) s))
             else (Inl (WriteAccessDenied (hd pathParts)), s))
      else if length pathParts = 1 then
        (if \<not> allowedToWrite s path then (Inl (WriteAccessDenied path), s)
         else (case v of
                 Function f \<Rightarrow> (Inr v, setEntry path (Supplier f) s)
               | StoreRef st \<Rightarrow> (Inr v, setEntry path (Plain (ResStore st)) s)
               | Undefined \<Rightarrow> (Inr v, setEntry path (Plain ResUndefined) s)
               | Json (JPrim p) \<Rightarrow> (Inr v, setEntry path (Plain (ResPrim p)) s)
               | Json j \<Rightarrow>
                   (case fold (\<lambda>(key, val) acc.
                                 case acc of
                                   Inl e \<Rightarrow> Inl e
                                 | Inr st \<Rightarrow>
                                     (case write_value st (Some key) (Json (JPrim val)) of
                                        (Inl e, _) \<Rightarrow> Inl e
                                      | (Inr _, st') \<Rightarrow> Inr st'))
                              (getAllPathFromJsonValue j []) (Inr createInstance) of
                      Inl e \<Rightarrow> (Inl e, s)
                    | Inr st \<Rightarrow> (Inr v, setEntry path (Plain (ResStore st)) s))))
      else (Inr v, s))"
  by pat_completeness auto
termination
  by (relation "measures
        [\<lambda>(s, p, v). case v of Json (JArray _) \<Rightarrow> 1 | Json (JObject _) \<Rightarrow> 1 | _ \<Rightarrow> 0,
         \<lambda>(s, p, v). case p of None \<Rightarrow> 0 | Some q \<Rightarrow> length q]")
     (auto simp: length_rest_less split: storeValue.splits jsonValue.splits)

text \<open>
  The truthiness of a primitive, as \<^verbatim>\<open>if (value)\<close> tests it: the empty string, zero,
  \<^verbatim>\<open>false\<close> and \<^verbatim>\<open>null\<close> are falsy (and so is \<^verbatim>\<open>undefined\<close>, a case of its own below).
\<close>

fun truthy :: "jsonPrimitive \<Rightarrow> bool" where
  "truthy (JString str) = (str \<noteq> [])"
| "truthy (JNumber n) = (n \<noteq> 0)"
| "truthy (JBoolean b) = b"
| "truthy JNull = False"

text \<open>
  \<^verbatim>\<open>result[key] = value\<close> on the plain object \<^verbatim>\<open>result\<close>, an association list of its own
  properties in the order in which JavaScript enumerates them: array indices (the decimal
  numerals below \<open>2^32 - 1\<close>) first, in ascending order, then the other keys in the order of
  their creation. An assignment to a key that exists replaces its value in place. An
  assignment to \<^verbatim>\<open>__proto__\<close> goes to the setter that \<^verbatim>\<open>Object.prototype\<close> has for it and makes
  no own property. \<open>decimalValue\<close> is the number a string of decimal digits denotes.
\<close>

definition decimalValue :: "string \<Rightarrow> nat" where
  "decimalValue ds = foldl (\<lambda>a c. 10 * a + (of_char c - 48)) 0 ds"

definition isArrayIndex :: "string \<Rightarrow> bool" where
  "isArrayIndex key = (key = toString (decimalValue key) \<and> decimalValue key < 4294967295)"

fun insertIndex :: "string \<Rightarrow> 'v \<Rightarrow> (string \<times> 'v) list \<Rightarrow> (string \<times> 'v) list" where
  "insertIndex key v [] = [(key, v)]"
| "insertIndex key v ((k, w) # rest) =
     (if isArrayIndex k \<and> decimalValue k < decimalValue key
      then (k, w) # insertIndex key v rest
      else (key, v) # (k, w) # rest)"

definition assignProperty ::
  "string \<Rightarrow> 'v \<Rightarrow> (string \<times> 'v) list \<Rightarrow> (string \<times> 'v) list" where
  "assignProperty key v obj =
     (if key = ''__proto__'' then obj
      else if key \<in> fst ` set obj then AList.update key v obj
      else if isArrayIndex key then insertIndex key v obj
      else obj @ [(key, v)])"

lemma size_store_entry:
  "(key, Plain (ResStore c)) \<in> set es \<Longrightarrow> size c < size (Store dp pm es)"
  "(key, Supplier (ResStore c)) \<in> set es \<Longrightarrow> size c < size (Store dp pm es)"
  by (induction es) auto

text \<open>
  \<^verbatim>\<open>entries()\<close>.
\<close>

function entries :: "store \<Rightarrow> (string \<times> jsonValue) list" where
  "entries s =
     fold (\<lambda>(key, value) result.
             if allowedToRead s key then
               (case value of
                  Plain (ResStore st) \<Rightarrow> assignProperty key (JObject (entries st)) result
                | Supplier functionResult \<Rightarrow>
                    (case functionResult of
                       ResStore st \<Rightarrow> assignProperty key (JObject (entries st)) result
                     | ResPrim p \<Rightarrow>
                         if truthy p then assignProperty key (JPrim p) result else result
                     | ResUndefined \<Rightarrow> result)
                | Plain (ResPrim p) \<Rightarrow>
                    if truthy p then assignProperty key (JPrim p) result else result
                | Plain ResUndefined \<Rightarrow> result)
             else result)
          (storeEntries s) []"
  by pat_completeness auto
termination
  apply (relation "measure size")
    apply simp
  subgoal for s x key v
    by (cases s) (auto dest: size_store_entry)
  subgoal for s x key v
    by (cases s) (auto dest: size_store_entry)
  done

declare entries.simps [simp del]

section \<open>The store engine on references\<close>

text \<open>
  The second model: the store objects live in a heap, a list indexed by address, and an
  entry that is a store holds the address of the object. \<^verbatim>\<open>new Store()\<close> appends an object
  to the heap, so its address is the length of the heap before.  A reference of the
  program always points to an object that exists; the properties below ask this of the
  addresses they follow. \<open>this\<close> is the address of the receiver.
\<close>

type_synonym address = nat
type_synonym refResult = "address storeResult0"
type_synonym refEntry = "address storeEntry0"

datatype storeObject = StoreObject
  (objDefaultPolicy: permission)
  (objPermissionMap: "(string \<times> permission) list")
  (objStoreEntries: "(string \<times> refEntry) list")

type_synonym heap = "storeObject list"

datatype refValue = JsonR jsonValue | StoreR address | UndefinedR | FunctionR refResult

definition getPermission_ref :: "heap \<Rightarrow> address \<Rightarrow> string \<Rightarrow> permission" where
  "getPermission_ref h this key =
     (case map_of (objPermissionMap (h ! this)) key of
        None \<Rightarrow> objDefaultPolicy (h ! this)
      | Some p \<Rightarrow> p)"

definition allowedToRead_ref :: "heap \<Rightarrow> address \<Rightarrow> string \<Rightarrow> bool" where
  "allowedToRead_ref h this key =
     (CHR ''r'' \<in> set (permissionString (getPermission_ref h this key)))"

definition allowedToWrite_ref :: "heap \<Rightarrow> address \<Rightarrow> string \<Rightarrow> bool" where
  "allowedToWrite_ref h this key =
     (CHR ''w'' \<in> set (permissionString (getPermission_ref h this key)))"

definition getEntry_ref :: "heap \<Rightarrow> address \<Rightarrow> string \<Rightarrow> refEntry" where
  "getEntry_ref h this key =
     (case map_of (objStoreEntries (h ! this)) key of
        None \<Rightarrow> Plain ResUndefined
      | Some e \<Rightarrow> e)"

definition setEntry_ref :: "address \<Rightarrow> string \<Rightarrow> refEntry \<Rightarrow> heap \<Rightarrow> heap" where
  "setEntry_ref this key e h =
     h[this := StoreObject (objDefaultPolicy (h ! this)) (objPermissionMap (h ! this))
                 (AList.update key e (objStoreEntries (h ! this)))]"

text \<open>
  The object that \<^verbatim>\<open>createInstance\<close> makes, as in the first model.
\<close>

definition newStore :: storeObject where
  "newStore = StoreObject RW [] []"

function read_ref :: "heap \<Rightarrow> address \<Rightarrow> string option \<Rightarrow> error + refResult" where
  "read_ref h this None = Inl NullPathForbidden"
| "read_ref h this (Some path) =
     (let pathParts = splitColon path in
      if length pathParts > 1 then
        (case getEntry_ref h this (hd pathParts) of
           Plain (ResStore entry) \<Rightarrow> read_ref h entry (Some (joinColon (tl pathParts)))
         | Plain _ \<Rightarrow> Inl IncorrectPath
         | Supplier functionResult \<Rightarrow>
             (case functionResult of
                ResStore st \<Rightarrow> read_ref h st (Some (joinColon (tl pathParts)))
              | _ \<Rightarrow> Inl IncorrectPath))
      else if length pathParts = 1 then
        (if \<not> allowedToRead_ref h this path then Inl (ReadAccessDenied path)
         else (case getEntry_ref h this path of
                 Supplier functionResult \<Rightarrow> Inr functionResult
               | Plain entry \<Rightarrow> Inr entry))
      else Inr ResUndefined)"
  by pat_completeness auto
termination
  by (relation "measure (\<lambda>(h, this, p). case p of None \<Rightarrow> 0 | Some q \<Rightarrow> length q)")
     (auto simp: length_rest_less)

text \<open>
  \<^verbatim>\<open>write\<close> on the heap. The recursive call works on the child object itself, and line 119
  sets the head entry of the receiver to the same reference afterwards, in the heap as the
  recursive call left it. What a throwing call has already written stays in the heap.
\<close>

function write_ref ::
  "heap \<Rightarrow> address \<Rightarrow> string option \<Rightarrow> refValue \<Rightarrow> (error + refValue) \<times> heap" where
  "write_ref h this None v = (Inl NullPathForbidden, h)"
| "write_ref h this (Some path) v =
     (let pathParts = splitColon path in
      if length pathParts > 1 then
        (case getEntry_ref h this (hd pathParts) of
           Plain (ResStore st) \<Rightarrow>
             (case write_ref h st (Some (joinColon (tl pathParts))) v of
                (Inl e, h') \<Rightarrow> (Inl e, h')
              | (Inr _, h') \<Rightarrow>
                  (Inr v, setEntry_ref this (hd pathParts) (Plain (ResStore st)) h'))
         | _ \<Rightarrow>
             if allowedToWrite_ref h this (hd pathParts) then
               (case write_ref (h @ [newStore]) (length h)
                       (Some (joinColon (tl pathParts))) v of
                  (Inl e, h') \<Rightarrow> (Inl e, h')
                | (Inr _, h') \<Rightarrow>
                    (Inr v, setEntry_ref this (hd pathParts) (Plain (ResStore (length h))) h'))
             else (Inl (WriteAccessDenied (hd pathParts)), h))
      else if length pathParts = 1 then
        (if \<not> allowedToWrite_ref h this path then (Inl (WriteAccessDenied path), h)
         else (case v of
                 FunctionR f \<Rightarrow> (Inr v, setEntry_ref this path (Supplier f) h)
               | StoreR st \<Rightarrow> (Inr v, setEntry_ref this path (Plain (ResStore st)) h)
               | UndefinedR \<Rightarrow> (Inr v, setEntry_ref this path (Plain ResUndefined) h)
               | JsonR (JPrim p) \<Rightarrow> (Inr v, setEntry_ref this path (Plain (ResPrim p)) h)
               | JsonR j \<Rightarrow>
                   (case fold (\<lambda>(key, val) (r, g).
                                 case r of
                                   Inl e \<Rightarrow> (Inl e, g)
                                 | Inr _ \<Rightarrow>
                                     write_ref g (length h) (Some key) (JsonR (JPrim val)))
                              (getAllPathFromJsonValue j []) (Inr v, h @ [newStore]) of
                      (Inl e, g) \<Rightarrow> (Inl e, g)
                    | (Inr _, g) \<Rightarrow>
                        (Inr v, setEntry_ref this path (Plain (ResStore (length h))) g))))
      else (Inr v, h))"
  by pat_completeness auto
termination
  by (relation "measures
        [\<lambda>(h, this, p, v).
           case v of JsonR (JArray _) \<Rightarrow> 1 | JsonR (JObject _) \<Rightarrow> 1 | _ \<Rightarrow> 0,
         \<lambda>(h, this, p, v). case p of None \<Rightarrow> 0 | Some q \<Rightarrow> length q]")
     (auto simp: length_rest_less split: refValue.splits jsonValue.splits)

declare read_ref.simps(2) [simp del] write_ref.simps(2) [simp del]

section \<open>Notions used to state the properties\<close>

text \<open>
  The store a write descends into below the key \<open>k\<close>: the child store held under \<open>k\<close>, or
  a new instance when the entry is anything else.
\<close>

definition nextStore :: "store \<Rightarrow> string \<Rightarrow> store" where
  "nextStore s k = (case getEntry s k of Plain (ResStore c) \<Rightarrow> c | _ \<Rightarrow> createInstance)"

text \<open>
  An allowed path: every segment is writable in the store where the write looks it up, and
  the last segment is also readable in the store that ends up holding it.
\<close>

fun allowedPath :: "store \<Rightarrow> string list \<Rightarrow> bool" where
  "allowedPath s [] = False"
| "allowedPath s [k] = (allowedToWrite s k \<and> allowedToRead s k)"
| "allowedPath s (k # r) = (allowedToWrite s k \<and> allowedPath (nextStore s k) r)"

text \<open>
  The same on the heap: the store objects that exist before the write and that the write
  of the path passes through, the receiver first, and the allowed paths.
\<close>

fun visited_ref :: "heap \<Rightarrow> address \<Rightarrow> string list \<Rightarrow> address list" where
  "visited_ref h this [] = []"
| "visited_ref h this [k] = [this]"
| "visited_ref h this (k # r) =
     this # (case getEntry_ref h this k of
               Plain (ResStore c) \<Rightarrow> visited_ref h c r
             | _ \<Rightarrow> [])"

fun allowedPath_ref :: "heap \<Rightarrow> address \<Rightarrow> string list \<Rightarrow> bool" where
  "allowedPath_ref h this [] = False"
| "allowedPath_ref h this [k] = (allowedToWrite_ref h this k \<and> allowedToRead_ref h this k)"
| "allowedPath_ref h this (k # r) =
     (allowedToWrite_ref h this k \<and>
      (case getEntry_ref h this k of
         Plain (ResStore c) \<Rightarrow> allowedPath_ref h c r
       | _ \<Rightarrow> True))"

text \<open>
  The child store an entry resolves to on a read, directly or through a supplier, and the
  result a read of the entry gives (\<^verbatim>\<open>entry()\<close> for a function, the entry itself otherwise).
\<close>

fun resolveStore :: "storeEntry \<Rightarrow> store option" where
  "resolveStore (Plain (ResStore c)) = Some c"
| "resolveStore (Supplier (ResStore c)) = Some c"
| "resolveStore _ = None"

fun invoke :: "storeEntry \<Rightarrow> storeResult" where
  "invoke (Plain r) = r"
| "invoke (Supplier r) = r"

text \<open>
  The store reached from \<open>s\<close> by resolving the given keys one after the other; no policy
  is looked at on the way.
\<close>

fun descend :: "store \<Rightarrow> string list \<Rightarrow> store option" where
  "descend s [] = Some s"
| "descend s (k # ks) =
     (case resolveStore (getEntry s k) of None \<Rightarrow> None | Some c \<Rightarrow> descend c ks)"

text \<open>
  What \<^verbatim>\<open>entries()\<close> assigns for an entry under a readable key, if anything, and the step
  of its \<^verbatim>\<open>forEach\<close> written with it.
\<close>

definition entryJson :: "storeEntry \<Rightarrow> jsonValue option" where
  "entryJson e =
     (case invoke e of
        ResStore c \<Rightarrow> Some (JObject (entries c))
      | ResPrim p \<Rightarrow> if truthy p then Some (JPrim p) else None
      | ResUndefined \<Rightarrow> None)"

definition assignEntry ::
  "store \<Rightarrow> string \<times> storeEntry \<Rightarrow> (string \<times> jsonValue) list \<Rightarrow> (string \<times> jsonValue) list" where
  "assignEntry s kv result =
     (if allowedToRead s (fst kv) then
        (case entryJson (snd kv) of
           Some j \<Rightarrow> assignProperty (fst kv) j result
         | None \<Rightarrow> result)
      else result)"

text \<open>
  The store that lines 129 to 133 of \<^verbatim>\<open>write\<close> build for a composite value: the fold of
  \<open>write_value\<close>, under its own name.
\<close>

definition expandComposite :: "jsonValue \<Rightarrow> error + store" where
  "expandComposite j =
     fold (\<lambda>(key, val) acc.
             case acc of
               Inl e \<Rightarrow> Inl e
             | Inr st \<Rightarrow>
                 (case write_value st (Some key) (Json (JPrim val)) of
                    (Inl e, _) \<Rightarrow> Inl e
                  | (Inr _, st') \<Rightarrow> Inr st'))
          (getAllPathFromJsonValue j []) (Inr createInstance)"

text \<open>
  The decimal numeral of a number: a non-empty string of decimal digits that denotes it
  and has no leading zero. Neither \<open>decimalValue\<close> nor this refers to \<open>toString\<close>.
\<close>

definition canonicalDecimal :: "string \<Rightarrow> nat \<Rightarrow> bool" where
  "canonicalDecimal ds n =
     (ds \<noteq> [] \<and> set ds \<subseteq> set ''0123456789'' \<and> decimalValue ds = n \<and>
      (hd ds = CHR ''0'' \<longrightarrow> ds = ''0''))"

text \<open>
  The specification's description of the flattening, on its own: the leaves of a JSON value
  in the order of the traversal, each with the sequence of object keys and array indices
  that leads to it, outermost first. It is compared with \<open>getAllPathFromJsonValue\<close> below.
\<close>

function leaves :: "jsonValue \<Rightarrow> (string list \<times> jsonPrimitive) list" where
  "leaves (JPrim p) = [([], p)]"
| "leaves (JArray items) =
     concat (map (\<lambda>(item, index). map (\<lambda>(ks, p). (toString index # ks, p)) (leaves item))
                 (zip items [0..<length items]))"
| "leaves (JObject members) =
     concat (map (\<lambda>(key, member). map (\<lambda>(ks, p). (key # ks, p)) (leaves member)) members)"
  by pat_completeness auto
termination
  by (relation "measure size") (auto dest: size_array_item size_object_member)

text \<open>
  \<^verbatim>\<open>map.set(path, value)\<close> for each pair of a list in turn.
\<close>

definition setAll :: "('k \<times> 'v) list \<Rightarrow> ('k \<times> 'v) list \<Rightarrow> ('k \<times> 'v) list" where
  "setAll xs res = fold (\<lambda>(path, value) res. AList.update path value res) xs res"

text \<open>
  The flattened pairs of a list of leaves below a path: each key sequence colon-joined
  behind the path.
\<close>

definition flattened :: "string list \<Rightarrow> (string list \<times> jsonPrimitive) list \<Rightarrow> (string \<times> jsonPrimitive) list" where
  "flattened currentPath ls = map (\<lambda>(ks, p). (joinColon (currentPath @ ks), p)) ls"

section \<open>Facts about paths and single steps\<close>

lemma splitColon_no_colon: "CHR '':'' \<notin> set p \<Longrightarrow> splitColon p = [p]"
  by (induction p) auto

lemma splitColon_segments: "seg \<in> set (splitColon p) \<Longrightarrow> CHR '':'' \<notin> set seg"
proof (induction p arbitrary: seg)
  case Nil
  then show ?case by simp
next
  case (Cons c cs)
  obtain x xs where sp: "splitColon cs = x # xs"
    using splitColon_nonempty[of cs] by (cases "splitColon cs") auto
  show ?case
  proof (cases "c = CHR '':''")
    case True
    with Cons show ?thesis by auto
  next
    case False
    with Cons.prems sp have "seg = c # x \<or> seg \<in> set xs" by auto
    with Cons.IH[of x] Cons.IH[of seg] sp False show ?thesis by auto
  qed
qed

lemma splitColon_append:
  "CHR '':'' \<notin> set x \<Longrightarrow> splitColon (x @ CHR '':'' # rest) = x # splitColon rest"
  by (induction x) auto

lemma splitColon_joinColon:
  "ps \<noteq> [] \<Longrightarrow> \<forall>seg \<in> set ps. CHR '':'' \<notin> set seg \<Longrightarrow> splitColon (joinColon ps) = ps"
proof (induction ps rule: joinColon.induct)
  case 1
  then show ?case by simp
next
  case (2 p)
  then show ?case by (simp add: splitColon_no_colon)
next
  case (3 p q ps)
  then show ?case by (simp add: splitColon_append)
qed

lemma splitColon_single: "splitColon path = [k] \<Longrightarrow> path = k"
  using joinColon_splitColon[of path] by simp

declare read.simps(2) [simp del] write_value.simps(2) [simp del]

lemma read_single:
  assumes "splitColon path = [k]"
  shows "read s (Some path) =
     (if \<not> allowedToRead s k then Inl (ReadAccessDenied k)
      else (case getEntry s k of Supplier r \<Rightarrow> Inr r | Plain r \<Rightarrow> Inr r))"
  using assms splitColon_single[OF assms] by (subst read.simps) simp

lemma read_multi_store:
  assumes "splitColon path = k # q # r"
    and "getEntry s k = Plain (ResStore c) \<or> getEntry s k = Supplier (ResStore c)"
  shows "read s (Some path) = read c (Some (joinColon (q # r)))"
  using assms by (subst read.simps) (auto simp: Let_def)

lemma read_multi_invalid:
  assumes "splitColon path = k # q # r"
    and "\<forall>c. getEntry s k \<noteq> Plain (ResStore c) \<and> getEntry s k \<noteq> Supplier (ResStore c)"
  shows "read s (Some path) = Inl IncorrectPath"
  using assms
  by (subst read.simps) (auto simp: Let_def split: storeEntry0.splits storeResult0.splits)

lemma write_single_denied:
  assumes "splitColon path = [k]" "\<not> allowedToWrite s k"
  shows "write_value s (Some path) v = (Inl (WriteAccessDenied k), s)"
  using assms splitColon_single[OF assms(1)] by (subst write_value.simps) simp

lemma write_single_prim:
  assumes "splitColon path = [k]" "allowedToWrite s k"
  shows "write_value s (Some path) (Json (JPrim p)) =
     (Inr (Json (JPrim p)), setEntry k (Plain (ResPrim p)) s)"
  using assms splitColon_single[OF assms(1)] by (subst write_value.simps) simp

lemma write_multi_store:
  assumes "splitColon path = k # q # r" "getEntry s k = Plain (ResStore st)"
  shows "write_value s (Some path) v =
     (case write_value st (Some (joinColon (q # r))) v of
        (Inl e, st') \<Rightarrow> (Inl e, setEntry k (Plain (ResStore st')) s)
      | (Inr _, st') \<Rightarrow> (Inr v, setEntry k (Plain (ResStore st')) s))"
  using assms
  by (subst write_value.simps) (simp add: Let_def split: prod.splits sum.splits)

lemma write_multi_fresh:
  assumes "splitColon path = k # q # r" "\<forall>st. getEntry s k \<noteq> Plain (ResStore st)"
  shows "write_value s (Some path) v =
     (if allowedToWrite s k then
        (case write_value createInstance (Some (joinColon (q # r))) v of
           (Inl e, _) \<Rightarrow> (Inl e, s)
         | (Inr _, st') \<Rightarrow> (Inr v, setEntry k (Plain (ResStore st')) s))
      else (Inl (WriteAccessDenied k), s))"
  using assms
  by (subst write_value.simps)
     (auto simp: Let_def split: prod.splits sum.splits storeEntry0.splits storeResult0.splits)

lemma getEntry_setEntry: "getEntry (setEntry k e s) k = e"
  by (simp add: getEntry_def setEntry_def update_conv')

lemma allowedToRead_setEntry: "allowedToRead (setEntry k e s) key = allowedToRead s key"
  by (simp add: allowedToRead_def getPermission_def setEntry_def split: option.splits)

lemma setEntry_same:
  "getEntry s k = Plain (ResStore st) \<Longrightarrow> setEntry k (Plain (ResStore st)) s = s"
  by (cases s) (auto simp: getEntry_def setEntry_def update_triv split: option.splits)


lemma write_single_failed:
  assumes "splitColon path = [k]" "isl (fst (write_value s (Some path) v))"
  shows "snd (write_value s (Some path) v) = s"
  using assms splitColon_single[OF assms(1)]
  by (subst write_value.simps, subst (asm) write_value.simps)
     (auto simp: Let_def split: prod.splits sum.splits storeValue.splits jsonValue.splits if_splits)

lemma write_single_composite:
  assumes "splitColon path = [k]" "allowedToWrite s k" "\<forall>p. j \<noteq> JPrim p"
  shows "write_value s (Some path) (Json j) =
     (case expandComposite j of
        Inl e \<Rightarrow> (Inl e, s)
      | Inr st \<Rightarrow> (Inr (Json j), setEntry k (Plain (ResStore st)) s))"
  using assms splitColon_single[OF assms(1)]
  by (subst write_value.simps)
     (simp add: expandComposite_def split: jsonValue.splits sum.splits)

lemma read_through:
  assumes "splitColon path = ps" "getEntry s (hd ps) = Plain (ResStore c)" "1 < length ps"
  shows "read s (Some path) = read c (Some (joinColon (tl ps)))"
proof -
  from assms(3) obtain k q r where "ps = k # q # r"
    by (cases ps; cases "tl ps") auto
  with assms read_multi_store[of path k q r s c] show ?thesis by simp
qed

lemma splitColon_examples [simp]:
  "splitColon ''a'' = [''a'']" "splitColon ''a:b'' = [''a'', ''b'']"
  "splitColon ''a:c:0'' = [''a'', ''c'', ''0'']" "splitColon ''a:c:1'' = [''a'', ''c'', ''1'']"
  "splitColon ''x:y:z'' = [''x'', ''y'', ''z'']" "splitColon '''' = ['''']"
  by simp_all

section \<open>Round trip\<close>

lemma round_trip_parts:
  assumes "ps \<noteq> []" "\<forall>seg \<in> set ps. CHR '':'' \<notin> set seg" "allowedPath s ps"
  shows "fst (write_value s (Some (joinColon ps)) (Json (JPrim v))) = Inr (Json (JPrim v)) \<and>
         read (snd (write_value s (Some (joinColon ps)) (Json (JPrim v))))
              (Some (joinColon ps)) = Inr (ResPrim v)"
  using assms
proof (induction s ps rule: allowedPath.induct)
  case (1 s)
  then show ?case by simp
next
  case (2 s k)
  then have sp: "splitColon k = [k]" by (simp add: splitColon_no_colon)
  from 2 show ?case
    by (simp add: write_single_prim[OF sp] read_single[OF sp] getEntry_setEntry
          allowedToRead_setEntry)
next
  case (3 s k q r)
  have sp: "splitColon (joinColon (k # q # r)) = k # q # r"
    using 3 by (intro splitColon_joinColon) auto
  let ?rest = "Some (joinColon (q # r))"
  have ih: "fst (write_value (nextStore s k) ?rest (Json (JPrim v))) = Inr (Json (JPrim v)) \<and>
        read (snd (write_value (nextStore s k) ?rest (Json (JPrim v)))) ?rest = Inr (ResPrim v)"
    using 3 by simp
  obtain res st' where w: "write_value (nextStore s k) ?rest (Json (JPrim v)) = (res, st')"
    by (cases "write_value (nextStore s k) ?rest (Json (JPrim v))")
  with ih have res: "res = Inr (Json (JPrim v))" and rd: "read st' ?rest = Inr (ResPrim v)"
    by auto
  show ?case
  proof (cases "\<exists>st. getEntry s k = Plain (ResStore st)")
    case True
    then obtain st where g: "getEntry s k = Plain (ResStore st)" by blast
    then have n: "nextStore s k = st" by (simp add: nextStore_def)
    show ?thesis
      using w res rd n
      by (simp add: write_multi_store[OF sp g] read_multi_store[OF sp] getEntry_setEntry
               del: joinColon.simps)
  next
    case False
    then have g: "\<forall>st. getEntry s k \<noteq> Plain (ResStore st)" by blast
    then have n: "nextStore s k = createInstance"
      by (auto simp: nextStore_def split: storeEntry0.splits storeResult0.splits)
    have aw: "allowedToWrite s k" using 3 by simp
    show ?thesis
      using w res rd n aw
      by (simp add: write_multi_fresh[OF sp g] read_multi_store[OF sp] getEntry_setEntry
               del: joinColon.simps)
  qed
qed

text \<open>
  The round trip in the first model, on every store that is a tree.
\<close>

lemma round_trip_tree:
  assumes "allowedPath s (splitColon p)"
  shows "fst (write_value s (Some p) (Json (JPrim v))) = Inr (Json (JPrim v)) \<and>
         read (snd (write_value s (Some p) (Json (JPrim v)))) (Some p) = Inr (ResPrim v)"
  using round_trip_parts[of "splitColon p" s v] assms splitColon_nonempty[of p]
    splitColon_segments[of _ p]
  by (simp add: joinColon_splitColon)


text \<open>
  The round trip in the second model.
\<close>

lemma read_ref_single:
  assumes "splitColon path = [k]"
  shows "read_ref h this (Some path) =
     (if \<not> allowedToRead_ref h this k then Inl (ReadAccessDenied k)
      else (case getEntry_ref h this k of Supplier r \<Rightarrow> Inr r | Plain r \<Rightarrow> Inr r))"
  using assms splitColon_single[OF assms] by (subst read_ref.simps) simp

lemma read_ref_multi_store:
  assumes "splitColon path = k # q # r" "getEntry_ref h this k = Plain (ResStore c)"
  shows "read_ref h this (Some path) = read_ref h c (Some (joinColon (q # r)))"
  using assms by (subst read_ref.simps) (auto simp: Let_def)

lemma write_ref_single_prim:
  assumes "splitColon path = [k]" "allowedToWrite_ref h this k"
  shows "write_ref h this (Some path) (JsonR (JPrim p)) =
     (Inr (JsonR (JPrim p)), setEntry_ref this k (Plain (ResPrim p)) h)"
  using assms splitColon_single[OF assms(1)] by (subst write_ref.simps) simp

lemma write_ref_multi_store:
  assumes "splitColon path = k # q # r" "getEntry_ref h this k = Plain (ResStore st)"
  shows "write_ref h this (Some path) v =
     (case write_ref h st (Some (joinColon (q # r))) v of
        (Inl e, h') \<Rightarrow> (Inl e, h')
      | (Inr _, h') \<Rightarrow> (Inr v, setEntry_ref this k (Plain (ResStore st)) h'))"
  using assms
  by (subst write_ref.simps) (simp add: Let_def split: prod.splits sum.splits)

lemma write_ref_multi_fresh:
  assumes "splitColon path = k # q # r" "\<forall>st. getEntry_ref h this k \<noteq> Plain (ResStore st)"
  shows "write_ref h this (Some path) v =
     (if allowedToWrite_ref h this k then
        (case write_ref (h @ [newStore]) (length h) (Some (joinColon (q # r))) v of
           (Inl e, h') \<Rightarrow> (Inl e, h')
         | (Inr _, h') \<Rightarrow> (Inr v, setEntry_ref this k (Plain (ResStore (length h))) h'))
      else (Inl (WriteAccessDenied k), h))"
  using assms
  by (subst write_ref.simps)
     (auto simp: Let_def split: prod.splits sum.splits storeEntry0.splits storeResult0.splits)

lemma getEntry_ref_cong: "g ! a = h ! a \<Longrightarrow> getEntry_ref g a k = getEntry_ref h a k"
  by (simp add: getEntry_ref_def)

lemma allowedToRead_ref_cong:
  "g ! a = h ! a \<Longrightarrow> allowedToRead_ref g a k = allowedToRead_ref h a k"
  by (simp add: allowedToRead_ref_def getPermission_ref_def split: option.splits)

lemma setEntry_ref_same:
  "a < length h \<Longrightarrow> getEntry_ref (setEntry_ref a k e h) a k = e"
  by (simp add: getEntry_ref_def setEntry_ref_def update_conv')

lemma setEntry_ref_allowed:
  "a < length h \<Longrightarrow> allowedToRead_ref (setEntry_ref a k e h) a key = allowedToRead_ref h a key"
  by (simp add: allowedToRead_ref_def getPermission_ref_def setEntry_ref_def split: option.splits)

lemma setEntry_ref_other: "b \<noteq> a \<Longrightarrow> setEntry_ref a k e h ! b = h ! b"
  by (simp add: setEntry_ref_def)

lemma length_setEntry_ref [simp]: "length (setEntry_ref a k e h) = length h"
  by (simp add: setEntry_ref_def)

lemma new_store_entry: "getEntry_ref (h @ [newStore]) (length h) k = Plain ResUndefined"
  by (simp add: getEntry_ref_def newStore_def)

lemma new_store_visited:
  assumes "r \<noteq> []"
  shows "visited_ref (h @ [newStore]) (length h) r = [length h]"
proof (cases r)
  case Nil
  with assms show ?thesis by simp
next
  case (Cons k r')
  then show ?thesis by (cases r') (simp_all add: new_store_entry)
qed

lemma new_store_allowed:
  assumes "r \<noteq> []"
  shows "allowedPath_ref (h @ [newStore]) (length h) r"
proof -
  have p: "allowedToWrite_ref (h @ [newStore]) (length h) k"
    "allowedToRead_ref (h @ [newStore]) (length h) k" for k
    by (simp_all add: allowedToWrite_ref_def allowedToRead_ref_def getPermission_ref_def
          newStore_def)
  show ?thesis
  proof (cases r)
    case Nil
    with assms show ?thesis by simp
  next
    case (Cons k r')
    then show ?thesis by (cases r') (simp_all add: new_store_entry p)
  qed
qed

lemma round_trip_ref_parts:
  assumes "ps \<noteq> []" "\<forall>seg \<in> set ps. CHR '':'' \<notin> set seg"
    and "allowedPath_ref h this ps"
    and "distinct (visited_ref h this ps)"
    and "\<forall>x \<in> set (visited_ref h this ps). x < length h"
  shows "fst (write_ref h this (Some (joinColon ps)) (JsonR (JPrim v))) = Inr (JsonR (JPrim v)) \<and>
         (\<forall>g. (\<forall>x. x \<in> set (visited_ref h this ps) \<or> length h \<le> x \<longrightarrow>
                    g ! x = snd (write_ref h this (Some (joinColon ps)) (JsonR (JPrim v))) ! x)
              \<longrightarrow> read_ref g this (Some (joinColon ps)) = Inr (ResPrim v)) \<and>
         (\<forall>b. b < length h \<and> b \<notin> set (visited_ref h this ps) \<longrightarrow>
              snd (write_ref h this (Some (joinColon ps)) (JsonR (JPrim v))) ! b = h ! b) \<and>
         length h \<le> length (snd (write_ref h this (Some (joinColon ps)) (JsonR (JPrim v))))"
  using assms
proof (induction ps arbitrary: h this rule: joinColon.induct)
  case 1
  then show ?case by simp
next
  case (2 k)
  then have sp: "splitColon k = [k]" by (simp add: splitColon_no_colon)
  from 2 have a: "this < length h" by simp
  from 2 have aw: "allowedToWrite_ref h this k" and ar: "allowedToRead_ref h this k" by simp_all
  let ?h' = "setEntry_ref this k (Plain (ResPrim v)) h"
  have w: "write_ref h this (Some (joinColon [k])) (JsonR (JPrim v)) = (Inr (JsonR (JPrim v)), ?h')"
    using write_ref_single_prim[OF sp aw] by simp
  have "read_ref g this (Some (joinColon [k])) = Inr (ResPrim v)" if "g ! this = ?h' ! this" for g
  proof -
    have "getEntry_ref g this k = Plain (ResPrim v)"
      using getEntry_ref_cong[OF that] setEntry_ref_same[OF a] by simp
    moreover have "allowedToRead_ref g this k"
      using allowedToRead_ref_cong[OF that] setEntry_ref_allowed[OF a] ar by simp
    ultimately show ?thesis by (simp add: read_ref_single[OF sp])
  qed
  moreover have "?h' ! b = h ! b" if "b \<noteq> this" for b
    using that by (simp add: setEntry_ref_other)
  ultimately show ?case unfolding w by auto
next
  case (3 k q r)
  have sp: "splitColon (joinColon (k # q # r)) = k # q # r"
    using 3 by (intro splitColon_joinColon) auto
  let ?v = "JsonR (JPrim v)"
  let ?rest = "Some (joinColon (q # r))"
  from "3.prems" have a: "this < length h" by simp
  have nc: "q # r \<noteq> []" "\<forall>seg \<in> set (q # r). CHR '':'' \<notin> set seg"
    using "3.prems" by auto
  show ?case
  proof (cases "\<exists>st. getEntry_ref h this k = Plain (ResStore st)")
    case True
    then obtain c where g: "getEntry_ref h this k = Plain (ResStore c)" by blast
    with "3.prems" have pre: "allowedPath_ref h c (q # r)" "distinct (visited_ref h c (q # r))"
      "\<forall>x \<in> set (visited_ref h c (q # r)). x < length h"
      and an: "this \<notin> set (visited_ref h c (q # r))"
      and vis: "visited_ref h this (k # q # r) = this # visited_ref h c (q # r)"
      by auto
    obtain res h' where w: "write_ref h c ?rest ?v = (res, h')"
      by (cases "write_ref h c ?rest ?v")
    from "3.IH"[OF nc pre] w
    have res: "res = Inr ?v"
      and rd: "\<And>g. (\<forall>x. x \<in> set (visited_ref h c (q # r)) \<or> length h \<le> x \<longrightarrow> g ! x = h' ! x)
                 \<Longrightarrow> read_ref g c ?rest = Inr (ResPrim v)"
      and fr: "\<And>b. b < length h \<Longrightarrow> b \<notin> set (visited_ref h c (q # r)) \<Longrightarrow> h' ! b = h ! b"
      and len: "length h \<le> length h'"
      by auto
    let ?h'' = "setEntry_ref this k (Plain (ResStore c)) h'"
    have w': "write_ref h this (Some (joinColon (k # q # r))) ?v = (Inr ?v, ?h'')"
      unfolding write_ref_multi_store[OF sp g] w res by simp
    have a': "this < length h'" using a len by simp
    have "read_ref g this (Some (joinColon (k # q # r))) = Inr (ResPrim v)"
      if ag: "\<forall>x. x \<in> set (visited_ref h this (k # q # r)) \<or> length h \<le> x \<longrightarrow> g ! x = ?h'' ! x"
      for g
    proof -
      from ag have "g ! this = ?h'' ! this" unfolding vis by simp
      from getEntry_ref_cong[OF this] have ge: "getEntry_ref g this k = Plain (ResStore c)"
        using setEntry_ref_same[OF a'] by simp
      have "\<forall>x. x \<in> set (visited_ref h c (q # r)) \<or> length h \<le> x \<longrightarrow> g ! x = h' ! x"
      proof (intro allI impI)
        fix x assume x: "x \<in> set (visited_ref h c (q # r)) \<or> length h \<le> x"
        with an a have ne: "x \<noteq> this" by auto
        from ag x have "g ! x = ?h'' ! x" unfolding vis by auto
        with ne show "g ! x = h' ! x" by (simp add: setEntry_ref_other)
      qed
      from rd[OF this] read_ref_multi_store[OF sp ge] show ?thesis by simp
    qed
    moreover have "?h'' ! b = h ! b"
      if "b < length h \<and> b \<notin> set (visited_ref h this (k # q # r))" for b
      using that fr[of b] unfolding vis by (simp add: setEntry_ref_other)
    moreover have "length h \<le> length ?h''" using len by simp
    ultimately show ?thesis unfolding w' snd_conv fst_conv by blast
  next
    case False
    then have g: "\<forall>st. getEntry_ref h this k \<noteq> Plain (ResStore st)" by blast
    then have vis: "visited_ref h this (k # q # r) = [this]"
      by (auto split: storeEntry0.splits storeResult0.splits)
    from "3.prems" have aw: "allowedToWrite_ref h this k" by simp
    let ?h1 = "h @ [newStore]"
    let ?c = "length h"
    have pre: "allowedPath_ref ?h1 ?c (q # r)" "distinct (visited_ref ?h1 ?c (q # r))"
      "\<forall>x \<in> set (visited_ref ?h1 ?c (q # r)). x < length ?h1"
      by (simp_all add: new_store_allowed new_store_visited del: allowedPath_ref.simps visited_ref.simps)
    obtain res h' where w: "write_ref ?h1 ?c ?rest ?v = (res, h')"
      by (cases "write_ref ?h1 ?c ?rest ?v")
    from "3.IH"[OF nc pre] w new_store_visited[of "q # r" h]
    have res: "res = Inr ?v"
      and rd: "\<And>g. (\<forall>x. x = ?c \<or> Suc (length h) \<le> x \<longrightarrow> g ! x = h' ! x)
                 \<Longrightarrow> read_ref g ?c ?rest = Inr (ResPrim v)"
      and fr: "\<And>b. b < Suc (length h) \<Longrightarrow> b \<noteq> ?c \<Longrightarrow> h' ! b = ?h1 ! b"
      and len: "Suc (length h) \<le> length h'"
      by (auto simp del: visited_ref.simps)
    let ?h'' = "setEntry_ref this k (Plain (ResStore ?c)) h'"
    have w': "write_ref h this (Some (joinColon (k # q # r))) ?v = (Inr ?v, ?h'')"
      unfolding write_ref_multi_fresh[OF sp g] using aw w res by simp
    have a': "this < length h'" using a len by simp
    have "read_ref g this (Some (joinColon (k # q # r))) = Inr (ResPrim v)"
      if ag: "\<forall>x. x \<in> set (visited_ref h this (k # q # r)) \<or> length h \<le> x \<longrightarrow> g ! x = ?h'' ! x"
      for g
    proof -
      from ag have "g ! this = ?h'' ! this" unfolding vis by simp
      from getEntry_ref_cong[OF this] have ge: "getEntry_ref g this k = Plain (ResStore ?c)"
        using setEntry_ref_same[OF a'] by simp
      have "\<forall>x. x = ?c \<or> Suc (length h) \<le> x \<longrightarrow> g ! x = h' ! x"
      proof (intro allI impI)
        fix x assume x: "x = ?c \<or> Suc (length h) \<le> x"
        with a have "x \<noteq> this" by auto
        moreover from x have "length h \<le> x" by auto
        ultimately show "g ! x = h' ! x" using ag unfolding vis by (simp add: setEntry_ref_other)
      qed
      from rd[OF this] read_ref_multi_store[OF sp ge] show ?thesis by simp
    qed
    moreover have "?h'' ! b = h ! b"
      if "b < length h \<and> b \<notin> set (visited_ref h this (k # q # r))" for b
      using that fr[of b] unfolding vis by (simp add: setEntry_ref_other nth_append)
    moreover have "length h \<le> length ?h''" using len by simp
    ultimately show ?thesis unfolding w' snd_conv fst_conv by blast
  qed
qed

text \<open>
  C1, as stated: for every primitive \<open>v\<close> and every path all of whose segments are writable
  and whose last segment is readable, \<^verbatim>\<open>write(p, v)\<close> and then \<^verbatim>\<open>read(p)\<close> returns \<open>v\<close>. It
  fails on a store that holds itself. On \<^verbatim>\<open>s = new Store()\<close>, where every key is writable
  and readable, \<^verbatim>\<open>s.write("a", s)\<close> puts the store under its own key \<open>a\<close>; then
  \<^verbatim>\<open>s.write("a:a", 5)\<close> succeeds, the recursive call setting \<open>a\<close> to 5 and line 119 setting
  it back to the store, and \<^verbatim>\<open>s.read("a:a")\<close> returns the store, not 5.
\<close>

theorem C1_counterexample:
  "write_ref [StoreObject RW [] []] 0 (Some ''a'') (StoreR 0) =
     (Inr (StoreR 0), [StoreObject RW [] [(''a'', Plain (ResStore 0))]]) \<and>
   allowedPath_ref [StoreObject RW [] [(''a'', Plain (ResStore 0))]] 0 (splitColon ''a:a'') \<and>
   fst (write_ref [StoreObject RW [] [(''a'', Plain (ResStore 0))]] 0 (Some ''a:a'')
          (JsonR (JPrim (JNumber 5)))) = Inr (JsonR (JPrim (JNumber 5))) \<and>
   read_ref (snd (write_ref [StoreObject RW [] [(''a'', Plain (ResStore 0))]] 0 (Some ''a:a'')
                    (JsonR (JPrim (JNumber 5))))) 0 (Some ''a:a'') = Inr (ResStore 0) \<and>
   read_ref (snd (write_ref [StoreObject RW [] [(''a'', Plain (ResStore 0))]] 0 (Some ''a:a'')
                    (JsonR (JPrim (JNumber 5))))) 0 (Some ''a:a'') \<noteq> Inr (ResPrim (JNumber 5))"
  by code_simp

text \<open>
  C1, amended: the round trip holds where the write passes through no store object twice.
  For every heap, every store in it, every primitive \<open>v\<close> and every path \<open>p\<close> all of whose
  segments are writable, each in the store where the write looks it up, and whose last
  segment is readable in the store that holds it: if the store objects that the write of
  \<open>p\<close> passes through are pairwise distinct (and exist), \<^verbatim>\<open>write(p, v)\<close> returns \<open>v\<close> without
  throwing and \<^verbatim>\<open>read(p)\<close> on the heap as the write left it returns exactly \<open>v\<close>.
\<close>

theorem C1_round_trip_without_revisit:
  assumes "allowedPath_ref h this (splitColon p)"
    and "distinct (visited_ref h this (splitColon p))"
    and "\<forall>x \<in> set (visited_ref h this (splitColon p)). x < length h"
  shows "fst (write_ref h this (Some p) (JsonR (JPrim v))) = Inr (JsonR (JPrim v)) \<and>
         read_ref (snd (write_ref h this (Some p) (JsonR (JPrim v)))) this (Some p)
           = Inr (ResPrim v)"
  using round_trip_ref_parts[of "splitColon p" h this v] assms splitColon_nonempty[of p]
    splitColon_segments[of _ p]
  by (simp add: joinColon_splitColon)

theorem C1_round_trip_without_revisit_witness:
  "allowedPath_ref
     [StoreObject NONE [(''cfg'', W)] [(''cfg'', Plain (ResStore 1))],
      StoreObject R [(''port'', RW)] []] 0 (splitColon ''cfg:port'') \<and>
   visited_ref
     [StoreObject NONE [(''cfg'', W)] [(''cfg'', Plain (ResStore 1))],
      StoreObject R [(''port'', RW)] []] 0 (splitColon ''cfg:port'') = [0, 1] \<and>
   fst (write_ref
       [StoreObject NONE [(''cfg'', W)] [(''cfg'', Plain (ResStore 1))],
        StoreObject R [(''port'', RW)] []] 0 (Some ''cfg:port'') (JsonR (JPrim (JNumber 8080))))
     = Inr (JsonR (JPrim (JNumber 8080))) \<and>
   read_ref (snd (write_ref
       [StoreObject NONE [(''cfg'', W)] [(''cfg'', Plain (ResStore 1))],
        StoreObject R [(''port'', RW)] []] 0 (Some ''cfg:port'') (JsonR (JPrim (JNumber 8080)))))
     0 (Some ''cfg:port'') = Inr (ResPrim (JNumber 8080))"
proof -
  let ?h = "[StoreObject NONE [(''cfg'', W)] [(''cfg'', Plain (ResStore 1))],
             StoreObject R [(''port'', RW)] []]"
  have v: "visited_ref ?h 0 (splitColon ''cfg:port'') = [0, 1]"
    by (simp add: getEntry_ref_def)
  have h1: "allowedPath_ref ?h 0 (splitColon ''cfg:port'')"
    by (simp add: getEntry_ref_def allowedToWrite_ref_def allowedToRead_ref_def
          getPermission_ref_def)
  have h2: "distinct (visited_ref ?h 0 (splitColon ''cfg:port''))"
    unfolding v by simp
  have h3: "\<forall>x \<in> set (visited_ref ?h 0 (splitColon ''cfg:port'')). x < length ?h"
    unfolding v by simp
  from h1 v C1_round_trip_without_revisit[OF h1 h2 h3, of "JNumber 8080"]
  show ?thesis by blast
qed

section \<open>Serialisation\<close>

text \<open>
  What \<^verbatim>\<open>entries()\<close> holds under a key, for a store whose entry keys are distinct as those
  of a \<^verbatim>\<open>Map\<close> are: nothing where the policy of this store denies read, the map has no
  such key or the key is \<^verbatim>\<open>__proto__\<close>, the serialised child where the entry is or supplies a store (under the child's
  own policies), the primitive where the entry is or supplies a truthy one, nothing
  otherwise.
\<close>

lemma entries_fold: "entries s = fold (assignEntry s) (storeEntries s) []"
proof -
  have "(\<lambda>(key, value) result.
             if allowedToRead s key then
               (case value of
                  Plain (ResStore st) \<Rightarrow> assignProperty key (JObject (entries st)) result
                | Supplier functionResult \<Rightarrow>
                    (case functionResult of
                       ResStore st \<Rightarrow> assignProperty key (JObject (entries st)) result
                     | ResPrim p \<Rightarrow>
                         if truthy p then assignProperty key (JPrim p) result else result
                     | ResUndefined \<Rightarrow> result)
                | Plain (ResPrim p) \<Rightarrow>
                    if truthy p then assignProperty key (JPrim p) result else result
                | Plain ResUndefined \<Rightarrow> result)
             else result) = assignEntry s"
    by (auto simp: fun_eq_iff assignEntry_def entryJson_def
          split: storeEntry0.splits storeResult0.splits)
  then show ?thesis by (subst entries.simps) simp
qed

lemma map_of_insertIndex:
  "map_of (insertIndex key v obj) = (map_of obj)(key \<mapsto> v)"
  by (induction obj) (auto simp: fun_eq_iff)

lemma map_of_snoc:
  "key \<notin> fst ` set obj \<Longrightarrow> map_of (obj @ [(key, v)]) = (map_of obj)(key \<mapsto> v)"
  by (induction obj) (auto simp: fun_eq_iff)

lemma map_of_assignProperty:
  "map_of (assignProperty key v obj) =
     (if key = ''__proto__'' then map_of obj else (map_of obj)(key \<mapsto> v))"
  by (simp add: assignProperty_def update_conv' map_of_insertIndex map_of_snoc
        del: map_of_append)

lemma map_of_fold_assignEntry:
  "distinct (map fst es) \<Longrightarrow>
   map_of (fold (assignEntry s) es acc) k =
     (case map_of es k of
        None \<Rightarrow> map_of acc k
      | Some e \<Rightarrow>
          if allowedToRead s k \<and> k \<noteq> ''__proto__'' then
            (case entryJson e of Some j \<Rightarrow> Some j | None \<Rightarrow> map_of acc k)
          else map_of acc k)"
proof (induction es arbitrary: acc)
  case Nil
  show ?case by simp
next
  case (Cons x es)
  obtain k' e' where x: "x = (k', e')" by (cases x)
  from Cons.prems x have d: "distinct (map fst es)" and n: "k' \<notin> fst ` set es" by auto
  show ?case
  proof (cases "k = k'")
    case True
    with n have "map_of es k = None" by (simp add: map_of_eq_None_iff)
    with Cons.IH[OF d, of "assignEntry s x acc"] True x show ?thesis
      by (auto simp: assignEntry_def map_of_assignProperty split: option.splits)
  next
    case False
    with Cons.IH[OF d, of "assignEntry s x acc"] x show ?thesis
      by (auto simp: assignEntry_def map_of_assignProperty split: option.splits)
  qed
qed

lemma entries_lookup:
  assumes "distinct (map fst (storeEntries s))"
  shows "map_of (entries s) k =
     (if allowedToRead s k \<and> k \<noteq> ''__proto__'' then
        (case map_of (storeEntries s) k of None \<Rightarrow> None | Some e \<Rightarrow> entryJson e)
      else None)"
  unfolding entries_fold map_of_fold_assignEntry[OF assms]
  by (auto split: option.splits)

text \<open>
  C2. The specification has \<^verbatim>\<open>entries()\<close> include every readable key whose stored value is
  a primitive other than \<^verbatim>\<open>undefined\<close>. The test \<^verbatim>\<open>else if (value)\<close> is a truthiness test: on
  a store that holds the number 0 under a readable key, which \<^verbatim>\<open>read\<close> returns,
  \<^verbatim>\<open>entries()\<close> is the empty object, and the empty string, \<^verbatim>\<open>false\<close> and \<^verbatim>\<open>null\<close> are dropped
  the same way while a truthy primitive is kept.
\<close>

theorem C2_entries_omits_falsy_primitives:
  "allowedToRead (Store RW [] [(''count'', Plain (ResPrim (JNumber 0)))]) ''count'' \<and>
   read (Store RW [] [(''count'', Plain (ResPrim (JNumber 0)))]) (Some ''count'')
     = Inr (ResPrim (JNumber 0)) \<and>
   entries (Store RW [] [(''count'', Plain (ResPrim (JNumber 0)))]) = [] \<and>
   entries (Store RW []
      [(''count'', Plain (ResPrim (JNumber 0))), (''name'', Plain (ResPrim (JString ''''))),
       (''flag'', Plain (ResPrim (JBoolean False))), (''gone'', Plain (ResPrim JNull)),
       (''kept'', Plain (ResPrim (JNumber 1)))]) = [(''kept'', JPrim (JNumber 1))]"
  proof -
  have n: "\<not> isArrayIndex ''kept''"
    by (simp add: isArrayIndex_def decimalValue_def toString.simps digitChar_def)
  have r: "read (Store RW [] [(''count'', Plain (ResPrim (JNumber 0)))]) (Some ''count'')
     = Inr (ResPrim (JNumber 0))"
    by (simp add: read_single[of "''count''" "''count''"] allowedToRead_def getPermission_def
          getEntry_def)
  show ?thesis
    unfolding r
    by (simp add: entries_fold assignEntry_def entryJson_def assignProperty_def n
          allowedToRead_def getPermission_def)
qed

section \<open>Composite expansion\<close>

text \<open>
  The index strings of the flattening are the decimal numerals: \<open>toString n\<close> is a decimal
  numeral of \<open>n\<close>, and the only one.
\<close>

lemma digit_cases: "d < 10 \<Longrightarrow> d \<in> {0, 1, 2, 3, 4, 5, 6, 7, 8, 9 :: nat}"
  by auto

lemma digitChar_digit: "d < 10 \<Longrightarrow> digitChar d \<in> set ''0123456789''"
  unfolding digitChar_def by (rule nth_mem) simp

lemma digitChar_value: "d < 10 \<Longrightarrow> of_char (digitChar d) - 48 = d"
  using digit_cases[of d] by (auto simp: digitChar_def)

lemma digitChar_zero: "d < 10 \<Longrightarrow> digitChar d = CHR ''0'' \<longleftrightarrow> d = 0"
  using digit_cases[of d] by (auto simp: digitChar_def)

lemma digit_char:
  assumes "c \<in> set ''0123456789''"
  shows "of_char c - 48 < (10::nat)" "digitChar (of_char c - 48) = c"
  using assms by (auto simp: digitChar_def)

lemma decimalValue_snoc:
  "decimalValue (ds @ [c]) = 10 * decimalValue ds + (of_char c - 48)"
  by (simp add: decimalValue_def)

lemma toString_nonempty: "toString n \<noteq> []"
  by (subst toString.simps) simp

lemma toString_digits: "set (toString n) \<subseteq> set ''0123456789''"
proof (induction n rule: toString.induct)
  case (1 n)
  show ?case
  proof (cases "n < 10")
    case True
    then show ?thesis using digitChar_digit[of n] by (subst toString.simps) simp
  next
    case False
    with 1 digitChar_digit[of "n mod 10"] show ?thesis by (subst toString.simps) simp
  qed
qed

lemma toString_decimal: "decimalValue (toString n) = n"
proof (induction n rule: toString.induct)
  case (1 n)
  show ?case
  proof (cases "n < 10")
    case True
    then show ?thesis
      by (subst toString.simps) (simp add: decimalValue_def digitChar_value)
  next
    case False
    with 1 have "decimalValue (toString (n div 10)) = n div 10" by simp
    with False show ?thesis
      by (subst toString.simps) (simp add: decimalValue_snoc digitChar_value)
  qed
qed

lemma toString_hd: "hd (toString n) = CHR ''0'' \<Longrightarrow> toString n = ''0''"
proof (induction n rule: toString.induct)
  case (1 n)
  show ?case
  proof (cases "n < 10")
    case True
    with "1.prems" have "n = 0"
      by (subst (asm) toString.simps) (simp add: digitChar_zero)
    then show ?thesis by (subst toString.simps) (simp add: digitChar_def)
  next
    case False
    with "1.prems" have "hd (toString (n div 10)) = CHR ''0''"
      by (subst (asm) toString.simps) (simp add: toString_nonempty)
    with 1 False have "toString (n div 10) = ''0''" by simp
    then have "decimalValue (toString (n div 10)) = 0" by (simp add: decimalValue_def)
    with False show ?thesis by (simp add: toString_decimal)
  qed
qed

lemma toString_canonical: "canonicalDecimal (toString n) n"
  unfolding canonicalDecimal_def
  using toString_nonempty toString_digits toString_decimal toString_hd by blast

lemma foldl_decimal_ge: "a \<le> foldl (\<lambda>a c. 10 * a + (of_char c - 48)) a ds"
  for a :: nat
proof (induction ds arbitrary: a)
  case Nil
  show ?case by simp
next
  case (Cons c ds)
  have "a \<le> 10 * a + (of_char c - 48)" by simp
  also have "\<dots> \<le> foldl (\<lambda>a c. 10 * a + (of_char c - 48)) (10 * a + (of_char c - 48)) ds"
    by (rule Cons.IH)
  finally show ?case by simp
qed

lemma decimalValue_positive:
  assumes "ds \<noteq> []" "set ds \<subseteq> set ''0123456789''" "hd ds \<noteq> CHR ''0''"
  shows "0 < decimalValue ds"
proof -
  obtain c cs where ds: "ds = c # cs" using assms(1) by (cases ds) auto
  with assms have "c \<in> set ''0123456789''" "c \<noteq> CHR ''0''" by auto
  then have "0 < (of_char c - 48 :: nat)" by auto
  moreover have "of_char c - 48 \<le> decimalValue ds"
    using foldl_decimal_ge[of "of_char c - 48" cs] ds by (simp add: decimalValue_def)
  ultimately show ?thesis by simp
qed

lemma canonical_unique: "canonicalDecimal ds n \<Longrightarrow> ds = toString n"
proof (induction n arbitrary: ds rule: toString.induct)
  case (1 n)
  from "1.prems" have ne: "ds \<noteq> []" and dg: "set ds \<subseteq> set ''0123456789''"
    and val: "decimalValue ds = n" and lead: "hd ds = CHR ''0'' \<Longrightarrow> ds = ''0''"
    by (auto simp: canonicalDecimal_def)
  from ne obtain init c where ds: "ds = init @ [c]" by (cases ds rule: rev_cases) auto
  with dg have c: "c \<in> set ''0123456789''" and dgi: "set init \<subseteq> set ''0123456789''" by auto
  let ?d = "of_char c - 48 :: nat"
  from digit_char[OF c] have d: "?d < 10" and cd: "digitChar ?d = c" by auto
  from val ds have v: "10 * decimalValue init + ?d = n" by (simp add: decimalValue_snoc)
  with d have dm: "?d = n mod 10" and vi: "decimalValue init = n div 10" by auto
  have lead_init: "hd init \<noteq> CHR ''0''" if "init \<noteq> []"
  proof
    assume "hd init = CHR ''0''"
    with that ds have "hd ds = CHR ''0''" by simp
    from lead[OF this] ds that show False by simp
  qed
  show ?case
  proof (cases "n < 10")
    case True
    have "init = []"
    proof (rule ccontr)
      assume i: "init \<noteq> []"
      from decimalValue_positive[OF i dgi lead_init[OF i]] vi True show False by simp
    qed
    with ds cd dm True show ?thesis by (subst toString.simps) simp
  next
    case False
    have i: "init \<noteq> []"
    proof
      assume "init = []"
      with v d False show False by (simp add: decimalValue_def)
    qed
    have "canonicalDecimal init (n div 10)"
      unfolding canonicalDecimal_def using i dgi vi lead_init[OF i] by simp
    from "1.IH"[OF False this] ds cd dm False show ?thesis
      by (subst toString.simps) simp
  qed
qed

lemma toString_is_decimal: "canonicalDecimal ds n \<longleftrightarrow> ds = toString n"
  using canonical_unique toString_canonical by blast

text \<open>
  Setting the pairs of a map that was itself built by \<open>setAll\<close> from the empty map is
  setting the pairs it was built from: each key keeps the place of its first \<^verbatim>\<open>set\<close> and
  the value of its last.
\<close>

lemma setAll_simps [simp]:
  "setAll [] res = res"
  "setAll ((k, v) # xs) res = setAll xs (AList.update k v res)"
  by (simp_all add: setAll_def)

lemma setAll_append: "setAll (xs @ ys) res = setAll ys (setAll xs res)"
  by (simp add: setAll_def)

lemma update_swap_present:
  "k \<noteq> k' \<Longrightarrow> k \<in> fst ` set al \<Longrightarrow>
   AList.update k' v' (AList.update k v al) = AList.update k v (AList.update k' v' al)"
  by (induction al) auto

lemma update_in_keys: "k \<in> fst ` set (AList.update k v al)"
  by (induction al) auto

lemma keys_update_mono: "k \<in> fst ` set al \<Longrightarrow> k \<in> fst ` set (AList.update k' v' al)"
  by (induction al) auto

lemma update_setAll_present:
  "k \<notin> fst ` set ys \<Longrightarrow> k \<in> fst ` set res \<Longrightarrow>
   AList.update k v (setAll ys res) = setAll ys (AList.update k v res)"
proof (induction ys arbitrary: res)
  case Nil
  show ?case by simp
next
  case (Cons y ys)
  obtain k' v' where y: "y = (k', v')" by (cases y)
  with Cons.prems have ne: "k \<noteq> k'" and nk: "k \<notin> fst ` set ys" by auto
  have "AList.update k v (setAll (y # ys) res) = AList.update k v (setAll ys (AList.update k' v' res))"
    using y by simp
  also have "\<dots> = setAll ys (AList.update k v (AList.update k' v' res))"
    using Cons.IH[OF nk keys_update_mono[OF Cons.prems(2)]] .
  also have "\<dots> = setAll ys (AList.update k' v' (AList.update k v res))"
    using update_swap_present[OF ne Cons.prems(2)] by simp
  finally show ?case using y by simp
qed

lemma setAll_update:
  "distinct (map fst acc) \<Longrightarrow>
   setAll (AList.update k v acc) res = AList.update k v (setAll acc res)"
proof (induction acc arbitrary: res)
  case Nil
  show ?case by simp
next
  case (Cons x acc)
  obtain k' v' where x: "x = (k', v')" by (cases x)
  from Cons.prems x have d: "distinct (map fst acc)" and nk: "k' \<notin> fst ` set acc" by auto
  show ?case
  proof (cases "k' = k")
    case True
    with nk have "AList.update k v (setAll acc (AList.update k v' res)) =
        setAll acc (AList.update k v (AList.update k v' res))"
      by (intro update_setAll_present) (auto simp: update_in_keys)
    with True x show ?thesis by simp
  next
    case False
    with Cons.IH[OF d] x show ?thesis by simp
  qed
qed

lemma distinct_setAll: "distinct (map fst res) \<Longrightarrow> distinct (map fst (setAll xs res))"
  by (induction xs arbitrary: res) (auto simp: distinct_update)

lemma setAll_setAll:
  "distinct (map fst acc) \<Longrightarrow> setAll (setAll xs acc) res = setAll xs (setAll acc res)"
proof (induction xs arbitrary: acc)
  case Nil
  show ?case by simp
next
  case (Cons x xs)
  obtain k v where x: "x = (k, v)" by (cases x)
  have "setAll (setAll (x # xs) acc) res = setAll (setAll xs (AList.update k v acc)) res"
    using x by simp
  also have "\<dots> = setAll xs (setAll (AList.update k v acc) res)"
    using Cons.prems by (intro Cons.IH) (simp add: distinct_update)
  also have "\<dots> = setAll xs (AList.update k v (setAll acc res))"
    using setAll_update[OF Cons.prems] by simp
  finally show ?case using x by simp
qed

lemma setAll_rebuilt: "setAll (setAll xs []) res = setAll xs res"
  using setAll_setAll[of "[]" xs res] by simp

lemma fold_rebuilt:
  "fold (\<lambda>x result. setAll (setAll (ys x) []) result) zs res = setAll (concat (map ys zs)) res"
  by (induction zs arbitrary: res) (simp_all add: setAll_rebuilt setAll_append)

lemma flatten_leaves:
  "getAllPathFromJsonValue j currentPath = setAll (flattened currentPath (leaves j)) []"
proof (induction j currentPath rule: getAllPathFromJsonValue.induct)
  case (1 obj currentPath)
  show ?case by (simp add: flattened_def)
next
  case (2 obj currentPath)
  let ?ys = "\<lambda>x. flattened (currentPath @ [toString (snd x)]) (leaves (fst x))"
  have "getAllPathFromJsonValue (JArray obj) currentPath =
      fold (\<lambda>x result. setAll (getAllPathFromJsonValue (fst x) (currentPath @ [toString (snd x)])) result)
        (zip obj [0..<length obj]) []"
    by (simp add: case_prod_unfold setAll_def)
  also have "\<dots> = fold (\<lambda>x result. setAll (setAll (?ys x) []) result) (zip obj [0..<length obj]) []"
    using 2 by (intro fold_cong refl) (auto simp del: append_assoc)
  also have "\<dots> = setAll (concat (map ?ys (zip obj [0..<length obj]))) []"
    by (rule fold_rebuilt)
  also have "concat (map ?ys (zip obj [0..<length obj])) = flattened currentPath (leaves (JArray obj))"
    by (simp add: flattened_def map_concat case_prod_unfold comp_def)
  finally show ?case .
next
  case (3 obj currentPath)
  let ?ys = "\<lambda>x. flattened (currentPath @ [fst x]) (leaves (snd x))"
  have "getAllPathFromJsonValue (JObject obj) currentPath =
      fold (\<lambda>x result. setAll (getAllPathFromJsonValue (snd x) (currentPath @ [fst x])) result)
        obj []"
    by (simp add: case_prod_unfold setAll_def)
  also have "\<dots> = fold (\<lambda>x result. setAll (setAll (?ys x) []) result) obj []"
    using 3 by (intro fold_cong refl) (auto simp del: append_assoc)
  also have "\<dots> = setAll (concat (map ?ys obj)) []"
    by (rule fold_rebuilt)
  also have "concat (map ?ys obj) = flattened currentPath (leaves (JObject obj))"
    by (simp add: flattened_def map_concat case_prod_unfold comp_def)
  finally show ?case .
qed

lemma flatten_leaves_fold:
  "getAllPathFromJsonValue j currentPath =
     fold (\<lambda>(ks, p). AList.update (joinColon (currentPath @ ks)) p) (leaves j) []"
  unfolding flatten_leaves setAll_def flattened_def
  by (simp add: fold_map comp_def case_prod_unfold)


lemma example_expansion:
  "expandComposite
       (JObject [(''b'', JPrim (JNumber 1)), (''c'', JArray [JPrim (JNumber 2), JPrim (JNumber 3)])])
     = Inr (Store RW []
          [(''b'', Plain (ResPrim (JNumber 1))),
           (''c'', Plain (ResStore (Store RW []
               [(''0'', Plain (ResPrim (JNumber 2))), (''1'', Plain (ResPrim (JNumber 3)))])))])"
  by code_simp

text \<open>
  C3. On a store where the key \<open>a\<close> is writable, \<^verbatim>\<open>write("a", {b: 1, c: [2,3]})\<close> stores
  under \<open>a\<close> a new store built from the flattened leaves (policy \<^verbatim>\<open>"rw"\<close>, no override,
  \<open>b\<close> holding 1 and \<open>c\<close> a new store holding 2 under \<open>0\<close> and 3 under \<open>1\<close>), so that
  \<^verbatim>\<open>read("a:b")\<close> is 1, \<^verbatim>\<open>read("a:c:0")\<close> is 2 and \<^verbatim>\<open>read("a:c:1")\<close> is 3. For every JSON
  value, the flattened map is the map obtained by setting, for each leaf in the order of
  the traversal, the colon-joined sequence of the object keys and array indices that lead
  to the leaf to the value of the leaf. The index of an array element is written as its
  decimal numeral: \<open>toString n\<close> is the one non-empty string of decimal digits without a
  leading zero that denotes \<open>n\<close>.
\<close>

theorem C3_composite_expansion:
  assumes "allowedToWrite s ''a''"
  shows "write_value s (Some ''a'')
           (Json (JObject [(''b'', JPrim (JNumber 1)),
                           (''c'', JArray [JPrim (JNumber 2), JPrim (JNumber 3)])])) =
         (Inr (Json (JObject [(''b'', JPrim (JNumber 1)),
                              (''c'', JArray [JPrim (JNumber 2), JPrim (JNumber 3)])])),
          setEntry ''a'' (Plain (ResStore (Store RW []
             [(''b'', Plain (ResPrim (JNumber 1))),
              (''c'', Plain (ResStore (Store RW []
                 [(''0'', Plain (ResPrim (JNumber 2))),
                  (''1'', Plain (ResPrim (JNumber 3)))])))]))) s) \<and>
         read (snd (write_value s (Some ''a'')
                 (Json (JObject [(''b'', JPrim (JNumber 1)),
                                 (''c'', JArray [JPrim (JNumber 2), JPrim (JNumber 3)])]))))
              (Some ''a:b'') = Inr (ResPrim (JNumber 1)) \<and>
         read (snd (write_value s (Some ''a'')
                 (Json (JObject [(''b'', JPrim (JNumber 1)),
                                 (''c'', JArray [JPrim (JNumber 2), JPrim (JNumber 3)])]))))
              (Some ''a:c:0'') = Inr (ResPrim (JNumber 2)) \<and>
         read (snd (write_value s (Some ''a'')
                 (Json (JObject [(''b'', JPrim (JNumber 1)),
                                 (''c'', JArray [JPrim (JNumber 2), JPrim (JNumber 3)])]))))
              (Some ''a:c:1'') = Inr (ResPrim (JNumber 3)) \<and>
         getAllPathFromJsonValue j currentPath =
           fold (\<lambda>(ks, p). AList.update (joinColon (currentPath @ ks)) p) (leaves j) [] \<and>
         (canonicalDecimal ds n \<longleftrightarrow> ds = toString n)"
proof -
  let ?child = "Store RW []
             [(''b'', Plain (ResPrim (JNumber 1))),
              (''c'', Plain (ResStore (Store RW []
                 [(''0'', Plain (ResPrim (JNumber 2))),
                  (''1'', Plain (ResPrim (JNumber 3)))])))]"
  let ?s' = "setEntry ''a'' (Plain (ResStore ?child)) s"
  have w: "write_value s (Some ''a'')
           (Json (JObject [(''b'', JPrim (JNumber 1)),
                           (''c'', JArray [JPrim (JNumber 2), JPrim (JNumber 3)])])) =
         (Inr (Json (JObject [(''b'', JPrim (JNumber 1)),
                              (''c'', JArray [JPrim (JNumber 2), JPrim (JNumber 3)])])), ?s')"
    using assms by (simp add: write_single_composite[of "''a''" "''a''"] example_expansion)
  have g: "getEntry ?s' ''a'' = Plain (ResStore ?child)" by (rule getEntry_setEntry)
  have r1: "read ?s' (Some ''a:b'') = Inr (ResPrim (JNumber 1))"
    unfolding read_through[OF splitColon_examples(2), of ?s', simplified, OF g] by code_simp
  have r2: "read ?s' (Some ''a:c:0'') = Inr (ResPrim (JNumber 2))"
    unfolding read_through[OF splitColon_examples(3), of ?s', simplified, OF g] by code_simp
  have r3: "read ?s' (Some ''a:c:1'') = Inr (ResPrim (JNumber 3))"
    unfolding read_through[OF splitColon_examples(4), of ?s', simplified, OF g] by code_simp
  show ?thesis
    unfolding w snd_conv
    using r1 r2 r3 flatten_leaves_fold[of j currentPath] toString_is_decimal[of ds n]
    by blast
qed

theorem C3_composite_expansion_witness:
  "allowedToWrite (Store W [] []) ''a'' \<and>
   read (snd (write_value (Store W [] []) (Some ''a'')
                 (Json (JObject [(''b'', JPrim (JNumber 1)),
                                 (''c'', JArray [JPrim (JNumber 2), JPrim (JNumber 3)])]))))
              (Some ''a:c:1'') = Inr (ResPrim (JNumber 3)) \<and>
   getAllPathFromJsonValue
       (JArray [JPrim (JString ''x''), JObject [(''k'', JPrim JNull)]]) [''p''] =
     fold (\<lambda>(ks, p). AList.update (joinColon ([''p''] @ ks)) p)
       (leaves (JArray [JPrim (JString ''x''), JObject [(''k'', JPrim JNull)]])) [] \<and>
   canonicalDecimal ''10'' 10 \<and> ''10'' = toString 10"
proof -
  have h: "allowedToWrite (Store W [] []) ''a''"
    by (simp add: allowedToWrite_def getPermission_def)
  have c: "canonicalDecimal ''10'' 10"
    by (simp add: canonicalDecimal_def decimalValue_def)
  from h c
    C3_composite_expansion[OF h,
      where j = "JArray [JPrim (JString ''x''), JObject [(''k'', JPrim JNull)]]"
        and currentPath = "[''p'']" and ds = "''10''" and n = 10]
  show ?thesis by blast
qed

section \<open>Auto-vivification\<close>

text \<open>
  C4. On a store without entries in which \<open>x\<close> is writable (as it is when the default
  policy allows write and no override names \<open>x\<close>), \<^verbatim>\<open>write("x:y:z", 5)\<close> succeeds, leaves
  under \<open>x\<close> a new store with default policy \<^verbatim>\<open>"rw"\<close> that holds under \<open>y\<close> a new store
  with default policy \<^verbatim>\<open>"rw"\<close> that holds 5 under \<open>z\<close>, and \<^verbatim>\<open>read("x:y:z")\<close> then returns 5.
\<close>

theorem C4_auto_vivification:
  assumes "storeEntries s = []" "allowedToWrite s ''x''"
  shows "write_value s (Some ''x:y:z'') (Json (JPrim (JNumber 5))) =
           (Inr (Json (JPrim (JNumber 5))),
            Store (defaultPolicy s) (permissionMap s)
              [(''x'', Plain (ResStore (Store RW []
                 [(''y'', Plain (ResStore (Store RW []
                    [(''z'', Plain (ResPrim (JNumber 5)))])))])))]) \<and>
         read (snd (write_value s (Some ''x:y:z'') (Json (JPrim (JNumber 5)))))
              (Some ''x:y:z'') = Inr (ResPrim (JNumber 5))"
proof -
  let ?cx = "Store RW [] [(''y'', Plain (ResStore (Store RW []
                    [(''z'', Plain (ResPrim (JNumber 5)))])))]"
  let ?s' = "Store (defaultPolicy s) (permissionMap s) [(''x'', Plain (ResStore ?cx))]"
  have fresh: "write_value createInstance (Some ''y:z'') (Json (JPrim (JNumber 5))) =
      (Inr (Json (JPrim (JNumber 5))), ?cx)"
    by code_simp
  have g: "\<forall>st. getEntry s ''x'' \<noteq> Plain (ResStore st)"
    using assms(1) by (simp add: getEntry_def)
  have w: "write_value s (Some ''x:y:z'') (Json (JPrim (JNumber 5))) =
      (Inr (Json (JPrim (JNumber 5))), ?s')"
    using assms fresh by (simp add: write_multi_fresh[OF splitColon_examples(5) g] setEntry_def)
  have g': "getEntry ?s' ''x'' = Plain (ResStore ?cx)" by (simp add: getEntry_def)
  have "read ?s' (Some ''x:y:z'') = Inr (ResPrim (JNumber 5))"
    unfolding read_through[OF splitColon_examples(5), of ?s', simplified, OF g'] by code_simp
  with w show ?thesis by simp
qed

theorem C4_auto_vivification_witness:
  "storeEntries (Store RW [] []) = [] \<and> allowedToWrite (Store RW [] []) ''x'' \<and>
   write_value (Store RW [] []) (Some ''x:y:z'') (Json (JPrim (JNumber 5))) =
     (Inr (Json (JPrim (JNumber 5))),
      Store RW []
        [(''x'', Plain (ResStore (Store RW []
           [(''y'', Plain (ResStore (Store RW []
              [(''z'', Plain (ResPrim (JNumber 5)))])))])))])"
proof -
  have h1: "storeEntries (Store RW [] []) = []" by simp
  have h2: "allowedToWrite (Store RW [] []) ''x''"
    by (simp add: allowedToWrite_def getPermission_def)
  show ?thesis using h1 h2 C4_auto_vivification[OF h1 h2] by simp
qed

section \<open>Reading through a denied key\<close>

lemma read_parts:
  assumes "ps \<noteq> []" "\<forall>seg \<in> set ps. CHR '':'' \<notin> set seg"
  shows "read s (Some (joinColon ps)) =
     (case descend s (butlast ps) of
        None \<Rightarrow> Inl IncorrectPath
      | Some t \<Rightarrow>
          if allowedToRead t (last ps) then Inr (invoke (getEntry t (last ps)))
          else Inl (ReadAccessDenied (last ps)))"
  using assms
proof (induction ps arbitrary: s rule: joinColon.induct)
  case 1
  then show ?case by simp
next
  case (2 k)
  then have sp: "splitColon k = [k]" by (simp add: splitColon_no_colon)
  show ?case by (cases "getEntry s k") (simp_all add: read_single[OF sp])
next
  case (3 k q r)
  have sp: "splitColon (joinColon (k # q # r)) = k # q # r"
    using 3 by (intro splitColon_joinColon) auto
  show ?case
  proof (cases "resolveStore (getEntry s k)")
    case None
    then have "\<forall>c. getEntry s k \<noteq> Plain (ResStore c) \<and> getEntry s k \<noteq> Supplier (ResStore c)"
      by auto
    from read_multi_invalid[OF sp this] None show ?thesis by simp
  next
    case (Some c)
    then have "getEntry s k = Plain (ResStore c) \<or> getEntry s k = Supplier (ResStore c)"
      by (auto elim: resolveStore.elims)
    from read_multi_store[OF sp this] Some "3.IH"[of c] "3.prems" show ?thesis
      by (simp del: joinColon.simps cong: option.case_cong if_cong)
  qed
qed

lemma read_ignores_policy:
  assumes "1 < length (splitColon p)"
  shows "read (Store dp pm (storeEntries s)) (Some p) = read s (Some p)"
  using assms
  by (subst read.simps, subst (2) read.simps) (simp add: Let_def getEntry_def)

text \<open>
  C5. On a read of a path of several segments whose keys before the last resolve, one after
  the other, to child stores (directly or through a supplier), the result is decided by the
  last store alone: the entry under the last segment where that store allows reading it,
  the access-denied error otherwise. The policies of the receiver play no part: the read
  gives the same on a store with the same entries and any other default policy and
  overrides, so also where the head key's policy denies read.
\<close>

theorem C5_head_permission_not_consulted:
  assumes "1 < length (splitColon p)"
    and "descend s (butlast (splitColon p)) = Some t"
  shows "read s (Some p) =
           (if allowedToRead t (last (splitColon p))
            then Inr (invoke (getEntry t (last (splitColon p))))
            else Inl (ReadAccessDenied (last (splitColon p)))) \<and>
         read (Store dp pm (storeEntries s)) (Some p) = read s (Some p)"
  using read_parts[of "splitColon p" s] assms splitColon_nonempty[of p]
    splitColon_segments[of _ p] read_ignores_policy[OF assms(1)]
  by (simp add: joinColon_splitColon)

theorem C5_head_permission_not_consulted_witness:
  "1 < length (splitColon ''secret:token'') \<and>
   \<not> allowedToRead (Store NONE [] [(''secret'', Plain (ResStore (Store RW [] [(''token'', Plain (ResPrim (JString ''t0p'')))])))]) ''secret'' \<and>
   descend (Store NONE [] [(''secret'', Plain (ResStore (Store RW [] [(''token'', Plain (ResPrim (JString ''t0p'')))])))])
       (butlast (splitColon ''secret:token''))
     = Some (Store RW [] [(''token'', Plain (ResPrim (JString ''t0p'')))]) \<and>
   read (Store NONE [] [(''secret'', Plain (ResStore (Store RW [] [(''token'', Plain (ResPrim (JString ''t0p'')))])))])
       (Some ''secret:token'')
     = Inr (ResPrim (JString ''t0p''))"
proof -
  let ?t = "Store RW [] [(''token'', Plain (ResPrim (JString ''t0p'')))]"
  let ?s = "Store NONE [] [(''secret'', Plain (ResStore ?t))]"
  have h1: "1 < length (splitColon ''secret:token'')" by simp
  have h2: "descend ?s (butlast (splitColon ''secret:token'')) = Some ?t"
    by (simp add: getEntry_def)
  have n: "\<not> allowedToRead ?s ''secret''"
    by (simp add: allowedToRead_def getPermission_def)
  have "read ?s (Some ''secret:token'') = Inr (ResPrim (JString ''t0p''))"
    using C5_head_permission_not_consulted[OF h1 h2, of RW "[]"]
    by (simp add: allowedToRead_def getPermission_def getEntry_def)
  with h1 h2 n show ?thesis by blast
qed

section \<open>Denied write\<close>

text \<open>
  C6. For every store, every value and every key \<open>p\<close> (a path of one segment) whose policy
  is \<^verbatim>\<open>"r"\<close>, \<^verbatim>\<open>write(p, v)\<close> throws the write-access-denied error and the store (entries,
  overrides, default policy) is as before.
\<close>

theorem C6_denied_write:
  assumes "CHR '':'' \<notin> set p" "getPermission s p = R"
  shows "write_value s (Some p) v = (Inl (WriteAccessDenied p), s)"
  using assms write_single_denied[OF splitColon_no_colon, of p s v]
  by (simp add: allowedToWrite_def)

theorem C6_denied_write_witness:
  "CHR '':'' \<notin> set ''version'' \<and>
   getPermission (Store RW [(''version'', R)] [(''version'', Plain (ResPrim (JNumber 3)))]) ''version'' = R \<and>
   write_value (Store RW [(''version'', R)] [(''version'', Plain (ResPrim (JNumber 3)))])
       (Some ''version'') (Json (JArray [JPrim (JNumber 4)]))
     = (Inl (WriteAccessDenied ''version''),
        Store RW [(''version'', R)] [(''version'', Plain (ResPrim (JNumber 3)))])"
proof -
  have h1: "CHR '':'' \<notin> set ''version''" by simp
  have h2: "getPermission (Store RW [(''version'', R)] [(''version'', Plain (ResPrim (JNumber 3)))]) ''version'' = R"
    by (simp add: getPermission_def)
  from h1 h2 C6_denied_write[OF h1 h2] show ?thesis by blast
qed

section \<open>Invalid traversal\<close>

text \<open>
  C7. A read of a path of several segments whose head entry resolves to no child store,
  neither directly nor through a supplier, throws "The path given is incorrect"; so does
  \<^verbatim>\<open>read("a:b")\<close> after a \<^verbatim>\<open>write("a", 1)\<close> that the policy of \<open>a\<close> allowed.
\<close>

theorem C7_invalid_traversal:
  "(1 < length (splitColon p) \<and> resolveStore (getEntry s (hd (splitColon p))) = None
      \<longrightarrow> read s (Some p) = Inl IncorrectPath) \<and>
   (allowedToWrite s ''a''
      \<longrightarrow> read (snd (write_value s (Some ''a'') (Json (JPrim (JNumber 1))))) (Some ''a:b'')
            = Inl IncorrectPath)"
proof (intro conjI impI)
  assume a: "1 < length (splitColon p) \<and> resolveStore (getEntry s (hd (splitColon p))) = None"
  then obtain k q r where sp: "splitColon p = k # q # r"
    by (cases "splitColon p"; cases "tl (splitColon p)") auto
  with a have "\<forall>c. getEntry s k \<noteq> Plain (ResStore c) \<and> getEntry s k \<noteq> Supplier (ResStore c)"
    by auto
  from read_multi_invalid[OF sp this] show "read s (Some p) = Inl IncorrectPath" .
next
  assume a: "allowedToWrite s ''a''"
  let ?s' = "setEntry ''a'' (Plain (ResPrim (JNumber 1))) s"
  have w: "write_value s (Some ''a'') (Json (JPrim (JNumber 1))) = (Inr (Json (JPrim (JNumber 1))), ?s')"
    using a by (simp add: write_single_prim[of "''a''" "''a''"])
  have "\<forall>c. getEntry ?s' ''a'' \<noteq> Plain (ResStore c) \<and> getEntry ?s' ''a'' \<noteq> Supplier (ResStore c)"
    by (simp add: getEntry_setEntry)
  from read_multi_invalid[OF splitColon_examples(2) this] w
  show "read (snd (write_value s (Some ''a'') (Json (JPrim (JNumber 1))))) (Some ''a:b'')
            = Inl IncorrectPath" by simp
qed

theorem C7_invalid_traversal_witness:
  "(1 < length (splitColon ''user:name'') \<and>
    resolveStore (getEntry (Store RW [] [(''user'', Supplier (ResPrim (JString ''ann'')))])
                   (hd (splitColon ''user:name''))) = None) \<and>
   read (Store RW [] [(''user'', Supplier (ResPrim (JString ''ann'')))]) (Some ''user:name'')
     = Inl IncorrectPath \<and>
   allowedToWrite (Store RW [] []) ''a'' \<and>
   read (snd (write_value (Store RW [] []) (Some ''a'') (Json (JPrim (JNumber 1))))) (Some ''a:b'')
     = Inl IncorrectPath"
proof -
  have h1: "1 < length (splitColon ''user:name'') \<and>
    resolveStore (getEntry (Store RW [] [(''user'', Supplier (ResPrim (JString ''ann'')))])
                   (hd (splitColon ''user:name''))) = None"
    by (simp add: getEntry_def)
  have h2: "allowedToWrite (Store RW [] []) ''a''"
    by (simp add: allowedToWrite_def getPermission_def)
  from C7_invalid_traversal[of "''user:name''"
      "Store RW [] [(''user'', Supplier (ResPrim (JString ''ann'')))]"] h1
  have c1: "read (Store RW [] [(''user'', Supplier (ResPrim (JString ''ann'')))]) (Some ''user:name'')
     = Inl IncorrectPath" by blast
  from C7_invalid_traversal[of _ "Store RW [] []"] h2
  have c2: "read (snd (write_value (Store RW [] []) (Some ''a'') (Json (JPrim (JNumber 1))))) (Some ''a:b'')
     = Inl IncorrectPath" by blast
  from h1 h2 c1 c2 show ?thesis by blast
qed

section \<open>Null path\<close>

text \<open>
  C8. For every store and every value, \<^verbatim>\<open>read(null)\<close> and \<^verbatim>\<open>write(null, v)\<close> both throw
  the invalid-path error 'Null path forbidden', and the write leaves the store as it was.
\<close>

theorem C8_null_path:
  "read s None = Inl NullPathForbidden \<and> write_value s None v = (Inl NullPathForbidden, s)"
  by simp

section \<open>Empty segments\<close>

text \<open>
  C9, as claimed: a path that splits to an empty segment is rejected, and no store holds
  an empty key. It fails on the store made by \<^verbatim>\<open>new Store()\<close>: \<^verbatim>\<open>write("", 5)\<close> succeeds and
  stores 5 under the empty key, \<^verbatim>\<open>read("")\<close> then returns 5, and \<^verbatim>\<open>write("a::b", 5)\<close> makes a
  child store under the empty key of the store under \<open>a\<close>.
\<close>

theorem C9_counterexample:
  "write_value (Store RW [] []) (Some '''') (Json (JPrim (JNumber 5))) =
     (Inr (Json (JPrim (JNumber 5))), Store RW [] [('''', Plain (ResPrim (JNumber 5)))]) \<and>
   read (Store RW [] [('''', Plain (ResPrim (JNumber 5)))]) (Some '''') = Inr (ResPrim (JNumber 5)) \<and>
   write_value (Store RW [] []) (Some ''a::b'') (Json (JPrim (JNumber 5))) =
     (Inr (Json (JPrim (JNumber 5))),
      Store RW [] [(''a'', Plain (ResStore (Store RW []
         [('''', Plain (ResStore (Store RW [] [(''b'', Plain (ResPrim (JNumber 5)))])))])))])"
  by code_simp

text \<open>
  C9, amended: the empty string is a key like any other and the path \<^verbatim>\<open>""\<close> is not rejected
  as invalid. \<^verbatim>\<open>read("")\<close> is decided by the policy of the key \<^verbatim>\<open>""\<close> alone; where that policy
  allows write, \<^verbatim>\<open>write("", v)\<close> with a primitive \<open>v\<close> stores \<open>v\<close> under the empty key; where
  it does not, the write throws the access-denied error and leaves the store as it was.
\<close>

theorem C9_empty_segment_is_a_key:
  "read s (Some '''') =
     (if allowedToRead s '''' then Inr (invoke (getEntry s ''''))
      else Inl (ReadAccessDenied '''')) \<and>
   (allowedToWrite s '''' \<longrightarrow>
      write_value s (Some '''') (Json (JPrim v)) =
        (Inr (Json (JPrim v)), setEntry '''' (Plain (ResPrim v)) s) \<and>
      getEntry (setEntry '''' (Plain (ResPrim v)) s) '''' = Plain (ResPrim v)) \<and>
   (\<not> allowedToWrite s '''' \<longrightarrow>
      write_value s (Some '''') w = (Inl (WriteAccessDenied ''''), s))"
proof -
  have sp: "splitColon '''' = ['''']" by simp
  have "read s (Some '''') =
     (if allowedToRead s '''' then Inr (invoke (getEntry s ''''))
      else Inl (ReadAccessDenied ''''))"
    by (cases "getEntry s ''''") (simp_all add: read_single[OF sp])
  then show ?thesis
    by (simp add: write_single_prim[OF sp] write_single_denied[OF sp] getEntry_setEntry)
qed

theorem C9_empty_segment_is_a_key_witness:
  "allowedToWrite (Store RW [] []) '''' \<and>
   write_value (Store RW [] []) (Some '''') (Json (JPrim (JString ''v''))) =
     (Inr (Json (JPrim (JString ''v''))),
      setEntry '''' (Plain (ResPrim (JString ''v''))) (Store RW [] [])) \<and>
   \<not> allowedToWrite (Store R [] []) '''' \<and>
   write_value (Store R [] []) (Some '''') Undefined =
     (Inl (WriteAccessDenied ''''), Store R [] [])"
proof -
  have h1: "allowedToWrite (Store RW [] []) ''''"
    by (simp add: allowedToWrite_def getPermission_def)
  have h2: "\<not> allowedToWrite (Store R [] []) ''''"
    by (simp add: allowedToWrite_def getPermission_def)
  from C9_empty_segment_is_a_key[of "Store RW [] []" "JString ''v''"] h1
  have c1: "write_value (Store RW [] []) (Some '''') (Json (JPrim (JString ''v''))) =
     (Inr (Json (JPrim (JString ''v''))),
      setEntry '''' (Plain (ResPrim (JString ''v''))) (Store RW [] []))"
    by blast
  from C9_empty_segment_is_a_key[of "Store R [] []" _ Undefined] h2
  have c2: "write_value (Store R [] []) (Some '''') Undefined =
     (Inl (WriteAccessDenied ''''), Store R [] [])"
    by blast
  from h1 h2 c1 c2 show ?thesis by blast
qed

section \<open>A write that throws changes nothing\<close>

lemma failed_write_parts:
  assumes "ps \<noteq> []" "\<forall>seg \<in> set ps. CHR '':'' \<notin> set seg"
    and "isl (fst (write_value s (Some (joinColon ps)) v))"
  shows "snd (write_value s (Some (joinColon ps)) v) = s"
  using assms
proof (induction ps arbitrary: s rule: joinColon.induct)
  case 1
  then show ?case by simp
next
  case (2 k)
  then have sp: "splitColon k = [k]" by (simp add: splitColon_no_colon)
  from 2 show ?case using write_single_failed[OF sp] by simp
next
  case (3 k q r)
  have sp: "splitColon (joinColon (k # q # r)) = k # q # r"
    using 3 by (intro splitColon_joinColon) auto
  let ?rest = "Some (joinColon (q # r))"
  show ?case
  proof (cases "\<exists>st. getEntry s k = Plain (ResStore st)")
    case True
    then obtain st where g: "getEntry s k = Plain (ResStore st)" by blast
    obtain res st' where w: "write_value st ?rest v = (res, st')"
      by (cases "write_value st ?rest v")
    from "3.prems"(3) w have "isl res"
      unfolding write_multi_store[OF sp g] by (auto split: sum.splits)
    with "3.IH"[of st] "3.prems" w have "st' = st" by simp
    then show ?thesis
      unfolding write_multi_store[OF sp g] using w g
      by (auto simp: setEntry_same split: sum.splits)
  next
    case False
    then have g: "\<forall>st. getEntry s k \<noteq> Plain (ResStore st)" by blast
    from "3.prems"(3) show ?thesis
      unfolding write_multi_fresh[OF sp g]
      by (auto split: if_splits prod.splits sum.splits)
  qed
qed

text \<open>
  C10. For every store, path and value, if \<^verbatim>\<open>write\<close> throws (null path, access denied at any
  level, or a throw while a composite value is expanded), the whole tree of the store is
  what it was before the call. The model lets a failing recursive call leave its changes
  in an existing child store, and attaches a new store only after the writes into it
  returned, as lines 118, 119 and 131 to 134 do.
\<close>

theorem C10_failed_write_changes_nothing:
  assumes "isl (fst (write_value s path v))"
  shows "snd (write_value s path v) = s"
proof (cases path)
  case None
  then show ?thesis by simp
next
  case (Some p)
  with failed_write_parts[of "splitColon p" s v] assms splitColon_nonempty[of p]
    splitColon_segments[of _ p]
  show ?thesis by (simp add: joinColon_splitColon)
qed

theorem C10_failed_write_changes_nothing_witness:
  "isl (fst (write_value
          (Store RW [] [(''cfg'', Plain (ResStore (Store RW [(''port'', R)] [(''port'', Plain (ResPrim (JNumber 80)))])))])
          (Some ''cfg:port'') (Json (JPrim (JNumber 81))))) \<and>
   snd (write_value
          (Store RW [] [(''cfg'', Plain (ResStore (Store RW [(''port'', R)] [(''port'', Plain (ResPrim (JNumber 80)))])))])
          (Some ''cfg:port'') (Json (JPrim (JNumber 81))))
     = Store RW [] [(''cfg'', Plain (ResStore (Store RW [(''port'', R)] [(''port'', Plain (ResPrim (JNumber 80)))])))]"
proof -
  have h: "isl (fst (write_value
          (Store RW [] [(''cfg'', Plain (ResStore (Store RW [(''port'', R)] [(''port'', Plain (ResPrim (JNumber 80)))])))])
          (Some ''cfg:port'') (Json (JPrim (JNumber 81)))))"
    by code_simp
  from h C10_failed_write_changes_nothing[OF h] show ?thesis by blast
qed

end
